theory Spec2Isabelle
  imports Main "HOL-Library.Char_ord"
begin

section \<open>A shallow embedding of the streaming JSON tokenizer (decode.go)\<close>

text \<open>
  Go's \<open>byte\<close> is modelled by \<open>char\<close> (an 8-bit value, ordered by its code through
  \<open>Char_ord\<close>), a \<open>[]byte\<close> by a \<open>char list\<close>.  Every function that mutates the
  decoder takes the state and returns the new one next to its result; an error return is
  the \<open>Inl\<close> side of a sum.
\<close>

type_synonym byte = char

abbreviation quote :: byte where "quote \<equiv> CHR 0x22"
abbreviation backslash :: byte where "backslash \<equiv> CHR 0x5C"

subsection \<open>Errors\<close>

text \<open>The two error values of package \<open>strconv\<close> (\<open>ErrSyntax\<close>, \<open>ErrRange\<close>).\<close>

datatype num_err = ErrSyntax | ErrRange

text \<open>The argument of \<open>d.err\<close>: one constructor for each message the code formats.\<close>

datatype msg =
    BadInputByte byte
  | UnexpectedEOFLiteral
  | UnexpectedInputLiteral byte
  | NumberTooLong
  | FailedScanFloat num_err
  | FailedScanInt num_err
  | UnexpectedEOFString
  | BadEscape byte
  | BadUnicodeEscape byte
  | IncompleteSurrogatePair
  | ExpectedBackslash byte
  | ExpectedU byte

text \<open>
  Error values.  \<open>EOF\<close> is \<open>io.EOF\<close>, \<open>ErrNotString\<close> the package variable of that name,
  \<open>IOError s\<close> any error value foreign to this package (what a byte source may return),
  \<open>ScanError line column m\<close> the value built by \<open>d.err\<close>
  (\<open>"scan error on line %d at column %d: %s"\<close>), \<open>UnableToReadString e\<close> the value built
  in \<open>readString\<close> (\<open>"unable to read string: %s"\<close>), and \<open>Panic\<close> a Go run-time panic
  (an index or a slice bound out of range).
\<close>

datatype error =
    EOF
  | ErrNotString
  | IOError string
  | Panic
  | ScanError int int msg
  | UnableToReadString error

subsection \<open>Tokens\<close>

text \<open>
  \<open>Token\<close> is \<open>interface{}\<close> in the source; the values the decoder stores in it are a
  \<open>Delim\<close>, a \<open>bool\<close>, \<open>nil\<close>, an \<open>int64\<close>, a \<open>float64\<close> and a \<open>string\<close>.  The type of
  floating-point values is the parameter \<open>'f\<close>: the decoder only passes on what
  \<open>strconv.ParseFloat\<close> returns.
\<close>

datatype 'f Token =
    TDelim byte
  | TBool bool
  | TNull
  | TInt int
  | TFloat 'f
  | TString "byte list"

subsection \<open>The byte source\<close>

text \<open>
  An \<open>io.Reader\<close> is modelled by the answers it gives: the list of the answers
  \<open>(bytes, err)\<close> of its next calls of \<open>Read\<close>, in order; once they are used up every
  further call answers zero bytes and \<open>io.EOF\<close>.  A \<open>bytes.Buffer\<close> holding \<open>bs\<close> answers
  \<open>(bs, nil)\<close> and then \<open>(0, io.EOF)\<close>; the \<open>badReader\<close> of the tests answers one byte
  at a time and then \<open>(0, errRandomIOError)\<close>.
\<close>

type_synonym Source = "(byte list \<times> error option) list"

definition source_Read :: "Source \<Rightarrow> (byte list \<times> error option) \<times> Source" where
  "source_Read s =
     (case s of
        [] \<Rightarrow> (([], Some EOF), [])
      | a # as \<Rightarrow> (a, as))"

subsection \<open>The decoder and its byte cursor\<close>

definition bufferSize :: nat where
  "bufferSize = 1024"

text \<open>
  \<open>buffer\<close> is the slice \<open>d.buffer\<close> (its length is the slice's length, its capacity is
  always \<open>bufferSize\<close>).  The field \<open>eof\<close> of the Go struct, which no function reads or
  writes, is \<open>d_eof\<close> here.
\<close>

record Decoder =
  source :: Source
  d_eof :: bool
  line :: int
  column :: int
  buffer :: "byte list"
  offset :: nat
  preparedByte :: byte
  preparedValid :: bool

definition NewDecoder :: "Source \<Rightarrow> Decoder" where
  "NewDecoder r =
     \<lparr>source = r, d_eof = False, line = 1, column = 1, buffer = [], offset = 0,
      preparedByte = CHR 0x00, preparedValid = False\<rparr>"

text \<open>
  \<open>next\<close> (a keyword of Isar, hence \<open>next_byte\<close>).  A read that fails with an error
  other than \<open>io.EOF\<close> returns that error, whatever \<open>n\<close> is; a read of zero bytes is
  \<open>io.EOF\<close>; \<open>d.buffer[:n]\<close> panics when \<open>n\<close> exceeds the capacity.
\<close>

function next_byte :: "Decoder \<Rightarrow> (error + byte) \<times> Decoder" where
  "next_byte d =
     (if preparedValid d then (Inr (preparedByte d), d\<lparr>preparedValid := False\<rparr>)
      else if offset d < length (buffer d) then
        (Inr (buffer d ! offset d), d\<lparr>offset := offset d + 1\<rparr>)
      else
        (case source_Read (source d) of
           ((bs, e), src) \<Rightarrow>
             let d1 = d\<lparr>source := src\<rparr> in
             if e \<noteq> None \<and> e \<noteq> Some EOF then (Inl (the e), d1)
             else if length bs = 0 then (Inl EOF, d1)
             else if bufferSize < length bs then (Inl Panic, d1)
             else next_byte (d1\<lparr>buffer := bs, offset := 0\<rparr>)))"
  by pat_completeness auto
termination
  by (relation "measure (\<lambda>d. if preparedValid d \<or> offset d < length (buffer d) then 0 else 1)")
     auto

declare next_byte.simps [simp del]

definition undo :: "Decoder \<Rightarrow> byte \<Rightarrow> Decoder" where
  "undo d input = d\<lparr>preparedByte := input, preparedValid := True\<rparr>"

definition err :: "Decoder \<Rightarrow> msg \<Rightarrow> error" where
  "err d m = ScanError (line d) (column d) m"

text \<open>
  What the cursor will deliver: the pushed-back byte, the unread part of the buffer and,
  for each pending answer of the source, what \<open>next\<close> makes of it.  It is used for the
  termination of the loops and to state the properties.
\<close>

datatype event = Byte byte | Fail error

fun chunk_events :: "byte list \<times> error option \<Rightarrow> event list" where
  "chunk_events (bs, e) =
     (if e \<noteq> None \<and> e \<noteq> Some EOF then [Fail (the e)]
      else if bs = [] then [Fail EOF]
      else if bufferSize < length bs then [Fail Panic]
      else map Byte bs)"

definition events :: "Decoder \<Rightarrow> event list" where
  "events d =
     (if preparedValid d then [Byte (preparedByte d)] else []) @
     map Byte (drop (offset d) (buffer d)) @
     concat (map chunk_events (source d))"

lemma next_byte_Nil:
  assumes "events d = []"
  shows "next_byte d = (Inl EOF, d)"
proof -
  from assms have pv: "\<not> preparedValid d" and off: "\<not> offset d < length (buffer d)"
    by (auto simp: events_def)
  have pend: "source d = []"
  proof (cases "source d")
    case Nil
    then show ?thesis .
  next
    case (Cons a as)
    obtain bs e where a: "a = (bs, e)" by (cases a)
    have "chunk_events a \<noteq> []" by (simp add: a)
    with assms Cons show ?thesis by (simp add: events_def)
  qed
  show ?thesis
    using pv off pend
    by (subst next_byte.simps)
       (auto simp: source_Read_def Let_def)
qed

lemma events_pending_Cons:
  assumes "\<not> preparedValid d" and "\<not> offset d < length (buffer d)"
    and "source d = a # as"
  shows "events d = chunk_events a @ concat (map chunk_events as)"
  using assms by (simp add: events_def)

lemma next_byte_Byte:
  assumes "events d = Byte b # evs"
  shows "\<exists>d'. next_byte d = (Inr b, d') \<and> events d' = evs \<and> \<not> preparedValid d' \<and>
              line d' = line d \<and> column d' = column d"
proof (cases "preparedValid d")
  case True
  with assms show ?thesis
    by (subst next_byte.simps) (simp add: events_def)
next
  case pv: False
  show ?thesis
  proof (cases "offset d < length (buffer d)")
    case True
    then have "drop (offset d) (buffer d) = buffer d ! offset d # drop (Suc (offset d)) (buffer d)"
      by (simp add: Cons_nth_drop_Suc)
    with assms pv True show ?thesis
      by (subst next_byte.simps) (simp add: events_def)
  next
    case off: False
    show ?thesis
    proof (cases "source d")
      case Nil
      with pv off assms show ?thesis by (simp add: events_def)
    next
      case (Cons a as)
      obtain bs e where a: "a = (bs, e)" by (cases a)
      from assms events_pending_Cons [OF pv off Cons]
      have ev: "chunk_events (bs, e) @ concat (map chunk_events as) = Byte b # evs"
        by (simp add: a)
      then have e: "e = None \<or> e = Some EOF" and bs: "bs \<noteq> []" and len: "\<not> bufferSize < length bs"
        by (auto split: if_splits)
      from bs obtain c cs where cs: "bs = c # cs" by (cases bs) auto
      from ev e bs len cs have b: "c = b" and evs: "evs = map Byte cs @ concat (map chunk_events as)"
        by auto
      let ?d2 = "d\<lparr>source := as, buffer := bs, offset := 0\<rparr>"
      have step: "next_byte d = next_byte ?d2"
        using pv off Cons a e bs len
        by (subst next_byte.simps) (auto simp: source_Read_def Let_def)
      have "next_byte ?d2 = (Inr b, ?d2\<lparr>offset := 1\<rparr>)"
        using pv cs b by (subst next_byte.simps) simp
      with step pv cs evs show ?thesis
        by (simp add: events_def)
    qed
  qed
qed

lemma next_byte_Fail:
  assumes "events d = Fail e # evs"
  shows "\<exists>d'. next_byte d = (Inl e, d') \<and> events d' = evs \<and> \<not> preparedValid d' \<and>
              line d' = line d \<and> column d' = column d"
proof -
  from assms have pv: "\<not> preparedValid d"
    by (auto simp: events_def split: if_splits)
  have off: "\<not> offset d < length (buffer d)"
  proof
    assume "offset d < length (buffer d)"
    then have "drop (offset d) (buffer d) = buffer d ! offset d # drop (Suc (offset d)) (buffer d)"
      by (simp add: Cons_nth_drop_Suc)
    with assms pv show False by (simp add: events_def)
  qed
  show ?thesis
  proof (cases "source d")
    case Nil
    with pv off assms show ?thesis by (simp add: events_def)
  next
    case (Cons a as)
    obtain bs x where a: "a = (bs, x)" by (cases a)
    from assms events_pending_Cons [OF pv off Cons]
    have ev: "chunk_events (bs, x) @ concat (map chunk_events as) = Fail e # evs"
      by (simp add: a)
    have evs: "evs = concat (map chunk_events as)"
    proof (cases "x \<noteq> None \<and> x \<noteq> Some EOF")
      case True
      with ev show ?thesis by simp
    next
      case False
      with ev show ?thesis by (cases bs) (auto split: if_splits)
    qed
    have "(x \<noteq> None \<and> x \<noteq> Some EOF \<and> e = the x) \<or>
          ((x = None \<or> x = Some EOF) \<and> bs = [] \<and> e = EOF) \<or>
          ((x = None \<or> x = Some EOF) \<and> bs \<noteq> [] \<and> bufferSize < length bs \<and> e = Panic)"
    proof (cases "x \<noteq> None \<and> x \<noteq> Some EOF")
      case True
      with ev show ?thesis by simp
    next
      case False
      with ev show ?thesis by (cases bs) (auto split: if_splits)
    qed
    then consider
        (io) "x \<noteq> None" "x \<noteq> Some EOF" "e = the x"
      | (eof) "x = None \<or> x = Some EOF" "bs = []" "e = EOF"
      | (panic) "x = None \<or> x = Some EOF" "bs \<noteq> []" "bufferSize < length bs" "e = Panic"
      by blast
    then show ?thesis
    proof cases
      case io
      with pv off Cons a evs show ?thesis
        by (subst next_byte.simps)
           (auto simp: source_Read_def Let_def events_def)
    next
      case eof
      with pv off Cons a evs show ?thesis
        by (subst next_byte.simps)
           (auto simp: source_Read_def Let_def events_def)
    next
      case panic
      with pv off Cons a evs show ?thesis
        by (subst next_byte.simps)
           (auto simp: source_Read_def Let_def events_def)
    qed
  qed
qed

text \<open>The converse: what a result of \<open>next\<close> says about the events.\<close>

lemma next_byte_Inr:
  assumes "next_byte d = (Inr b, d')"
  shows "events d = Byte b # events d' \<and> \<not> preparedValid d' \<and>
         line d' = line d \<and> column d' = column d"
proof (cases "events d")
  case Nil
  from next_byte_Nil [OF Nil] assms show ?thesis by simp
next
  case (Cons ev evs)
  show ?thesis
  proof (cases ev)
    case (Byte c)
    with Cons next_byte_Byte [of d c evs] assms show ?thesis by auto
  next
    case (Fail e)
    with Cons next_byte_Fail [of d e evs] assms show ?thesis by auto
  qed
qed

lemma next_byte_Inl:
  assumes "next_byte d = (Inl e, d')"
  shows "(events d = [] \<and> d' = d \<and> e = EOF \<or> events d = Fail e # events d') \<and>
         line d' = line d \<and> column d' = column d"
proof (cases "events d")
  case Nil
  from next_byte_Nil [OF Nil] assms Nil show ?thesis by simp
next
  case (Cons ev evs)
  show ?thesis
  proof (cases ev)
    case (Byte c)
    with Cons next_byte_Byte [of d c evs] assms show ?thesis by auto
  next
    case (Fail x)
    with Cons next_byte_Fail [of d x evs] assms show ?thesis by auto
  qed
qed

lemma next_byte_length:
  "next_byte d = (Inr b, d') \<Longrightarrow> length (events d') < length (events d)"
  by (drule next_byte_Inr) simp

subsection \<open>The separator skipper\<close>

function skipWhitespace :: "Decoder \<Rightarrow> (error + byte) \<times> Decoder" where
  "skipWhitespace d =
     (case next_byte d of
        (Inl e, d1) \<Rightarrow> (Inl e, d1)
      | (Inr input, d1) \<Rightarrow>
          let d2 = (if input = CHR 0x0A then d1\<lparr>line := line d1 + 1, column := 1\<rparr>
                    else d1\<lparr>column := column d1 + 1\<rparr>) in
          if input \<noteq> CHR '' '' \<and> input \<noteq> CHR 0x0D \<and> input \<noteq> CHR 0x0A \<and>
             input \<noteq> CHR 0x09 \<and> input \<noteq> CHR '','' \<and> input \<noteq> CHR '':''
          then (Inr input, d2)
          else skipWhitespace d2)"
  by pat_completeness auto
termination
proof (relation "measure (\<lambda>d. length (events d))")
  show "wf (measure (\<lambda>d. length (events d)))" by simp
next
  fix d :: Decoder and x d1 input d2
  assume "(x, d1) = next_byte d" and "x = Inr input"
    and d2: "d2 = (if input = CHR 0x0A then d1\<lparr>line := line d1 + 1, column := 1\<rparr>
                   else d1\<lparr>column := column d1 + 1\<rparr>)"
  then have "next_byte d = (Inr input, d1)" by simp
  from next_byte_length [OF this] have "length (events d1) < length (events d)" .
  moreover have "events d2 = events d1" by (simp add: d2 events_def)
  ultimately show "(d2, d) \<in> measure (\<lambda>d. length (events d))" by simp
qed

declare skipWhitespace.simps [simp del]

subsection \<open>The literal matcher\<close>

text \<open>\<open>for _, c := range []byte(expected)\<close> is recursion on the list of expected bytes.\<close>

fun expect :: "Decoder \<Rightarrow> byte list \<Rightarrow> 'f Token \<Rightarrow> (error + 'f Token) \<times> Decoder" where
  "expect d [] token = (Inr token, d)"
| "expect d (c # cs) token =
     (case next_byte d of
        (Inl e, d1) \<Rightarrow>
          if e \<noteq> EOF then (Inl e, d1)
          else (Inl (err d1 UnexpectedEOFLiteral), d1)
      | (Inr input, d1) \<Rightarrow>
          if input \<noteq> c then (Inl (err d1 (UnexpectedInputLiteral input)), d1)
          else expect d1 cs token)"

subsection \<open>The number scanner\<close>

text \<open>
  \<open>strconv.ParseInt(s, 10, 64)\<close> of Go's standard library, after its documented
  behaviour: an optional sign, then one or more decimal digits (\<open>ParseUint\<close> reads them
  from the left and stops at the first byte that is no digit, or as soon as the value
  leaves 64 bits); a magnitude outside the range of \<open>int64\<close> is \<open>ErrRange\<close>.
\<close>

definition is_digit :: "byte \<Rightarrow> bool" where
  "is_digit c = (CHR ''0'' \<le> c \<and> c \<le> CHR ''9'')"

definition digit_val :: "byte \<Rightarrow> nat" where
  "digit_val c = of_char c - of_char CHR ''0''"

fun ParseUint_loop :: "byte list \<Rightarrow> nat \<Rightarrow> num_err + nat" where
  "ParseUint_loop [] n = Inr n"
| "ParseUint_loop (c # cs) n =
     (if \<not> is_digit c then Inl ErrSyntax
      else if 2 ^ 64 \<le> n * 10 then Inl ErrRange
      else if 2 ^ 64 \<le> n * 10 + digit_val c then Inl ErrRange
      else ParseUint_loop cs (n * 10 + digit_val c))"

definition ParseUint :: "byte list \<Rightarrow> num_err + nat" where
  "ParseUint s = (if s = [] then Inl ErrSyntax else ParseUint_loop s 0)"

definition ParseInt :: "byte list \<Rightarrow> num_err + int" where
  "ParseInt s =
     (if s = [] then Inl ErrSyntax
      else
        let neg = (hd s = CHR ''-'');
            s1 = (if hd s = CHR ''+'' \<or> hd s = CHR ''-'' then tl s else s)
        in case ParseUint s1 of
             Inl e \<Rightarrow> Inl e
           | Inr un \<Rightarrow>
               if \<not> neg \<and> 2 ^ 63 \<le> un then Inl ErrRange
               else if neg \<and> 2 ^ 63 < un then Inl ErrRange
               else Inr (if neg then - int un else int un))"

text \<open>
  The loop of \<open>readNumber\<close>.  \<open>buf\<close> is the 64-byte array \<open>buffer\<close>, \<open>off\<close> its
  \<open>offset\<close>; a \<open>break\<close> returns the three loop variables.
\<close>

function readNumber_loop ::
  "Decoder \<Rightarrow> byte list \<Rightarrow> nat \<Rightarrow> bool \<Rightarrow> (error + byte list \<times> nat \<times> bool) \<times> Decoder" where
  "readNumber_loop d buf off isFloat =
     (case next_byte d of
        (Inl e, d1) \<Rightarrow>
          if e \<noteq> EOF then (Inl e, d1)
          else (Inr (buf, off, isFloat), d1)
      | (Inr input, d1) \<Rightarrow>
          if input = CHR ''.'' \<or> input = CHR ''e'' \<or> input = CHR ''E'' then
            (if off = length buf then (Inl (err d1 NumberTooLong), d1)
             else readNumber_loop d1 (buf[off := input]) (off + 1) True)
          else if (input < CHR ''0'' \<or> input > CHR ''9'') \<and> input \<noteq> CHR ''-'' then
            (Inr (buf, off, isFloat), undo d1 input)
          else
            (if off = length buf then (Inl (err d1 NumberTooLong), d1)
             else readNumber_loop d1 (buf[off := input]) (off + 1) isFloat))"
  by pat_completeness auto
termination
proof (relation "measure (\<lambda>(d, buf, off, isFloat). length (events d))")
  show "wf (measure (\<lambda>(d, buf, off, isFloat). length (events d)))" by simp
next
  fix d :: Decoder and buf :: "byte list" and off :: nat and isFloat :: bool and x d1 input
  assume "(x, d1) = next_byte d" and "x = Inr input"
  then have "next_byte d = (Inr input, d1)" by simp
  from next_byte_length [OF this]
  show "((d1, buf[off := input], off + 1, True), d, buf, off, isFloat)
          \<in> measure (\<lambda>(d, buf, off, isFloat). length (events d))"
    by simp
next
  fix d :: Decoder and buf :: "byte list" and off :: nat and isFloat :: bool and x d1 input
  assume "(x, d1) = next_byte d" and "x = Inr input"
  then have "next_byte d = (Inr input, d1)" by simp
  from next_byte_length [OF this]
  show "((d1, buf[off := input], off + 1, isFloat), d, buf, off, isFloat)
          \<in> measure (\<lambda>(d, buf, off, isFloat). length (events d))"
    by simp
qed

declare readNumber_loop.simps [simp del]

text \<open>
  \<open>readNumber\<close>.  \<open>ParseFloat\<close> stands for \<open>strconv.ParseFloat(s, 64)\<close>, a parameter
  of the model.
\<close>

definition readNumber ::
  "(byte list \<Rightarrow> num_err + 'f) \<Rightarrow> Decoder \<Rightarrow> (error + 'f Token) \<times> Decoder" where
  "readNumber ParseFloat d =
     (case readNumber_loop d (replicate 64 (CHR 0x00)) 0 False of
        (Inl e, d1) \<Rightarrow> (Inl e, d1)
      | (Inr (buf, off, isFloat), d1) \<Rightarrow>
          if isFloat then
            (case ParseFloat (take off buf) of
               Inl e \<Rightarrow> (Inl (err d1 (FailedScanFloat e)), d1)
             | Inr f \<Rightarrow> (Inr (TFloat f), d1))
          else
            (case ParseInt (take off buf) of
               Inl e \<Rightarrow> (Inl (err d1 (FailedScanInt e)), d1)
             | Inr i \<Rightarrow> (Inr (TInt i), d1)))"

subsection \<open>The string decoder\<close>

text \<open>
  Runes are \<open>int32\<close> in Go; every rune of this code lies between 0 and \<open>0x10FFFF\<close>, and
  is a \<open>nat\<close> here.  The three functions of \<open>unicode/utf16\<close> and \<open>unicode/utf8\<close> the
  decoder calls, after their definitions in Go's standard library (shifts and masks
  written with \<open>div\<close> and \<open>mod\<close>):
\<close>

definition IsSurrogate :: "nat \<Rightarrow> bool" where
  "IsSurrogate r = (0xD800 \<le> r \<and> r < 0xE000)"

definition DecodeRune :: "nat \<Rightarrow> nat \<Rightarrow> nat" where
  "DecodeRune r1 r2 =
     (if 0xD800 \<le> r1 \<and> r1 < 0xDC00 \<and> 0xDC00 \<le> r2 \<and> r2 < 0xE000
      then (r1 - 0xD800) * 1024 + (r2 - 0xDC00) + 0x10000
      else 0xFFFD)"

definition EncodeRune :: "nat \<Rightarrow> byte list" where
  "EncodeRune r =
     (if r \<le> 0x7F then [char_of r]
      else if r \<le> 0x7FF then [char_of (0xC0 + r div 64), char_of (0x80 + r mod 64)]
      else if 0x10FFFF < r \<or> (0xD800 \<le> r \<and> r \<le> 0xDFFF) then [CHR 0xEF, CHR 0xBF, CHR 0xBD]
      else if r \<le> 0xFFFF then
        [char_of (0xE0 + r div 4096), char_of (0x80 + r div 64 mod 64), char_of (0x80 + r mod 64)]
      else
        [char_of (0xF0 + r div 262144), char_of (0x80 + r div 4096 mod 64),
         char_of (0x80 + r div 64 mod 64), char_of (0x80 + r mod 64)])"

text \<open>
  \<open>getu4\<close>: \<open>strconv.ParseUint(s, 16, 64)\<close> on four bytes, its error dropped (the value
  is 0 when a byte is no hexadecimal digit).
\<close>

definition hex_val :: "byte \<Rightarrow> nat option" where
  "hex_val c =
     (if CHR ''0'' \<le> c \<and> c \<le> CHR ''9'' then Some (of_char c - of_char CHR ''0'')
      else if CHR ''a'' \<le> c \<and> c \<le> CHR ''f'' then Some (of_char c - of_char CHR ''a'' + 10)
      else if CHR ''A'' \<le> c \<and> c \<le> CHR ''F'' then Some (of_char c - of_char CHR ''A'' + 10)
      else None)"

fun ParseUint16_loop :: "byte list \<Rightarrow> nat \<Rightarrow> nat option" where
  "ParseUint16_loop [] n = Some n"
| "ParseUint16_loop (c # cs) n =
     (case hex_val c of None \<Rightarrow> None | Some v \<Rightarrow> ParseUint16_loop cs (n * 16 + v))"

definition getu4 :: "byte list \<Rightarrow> nat" where
  "getu4 s = (case ParseUint16_loop s 0 of None \<Rightarrow> 0 | Some r \<Rightarrow> r)"

text \<open>The field \<open>step\<close> holds one of five functions; \<open>step_fn\<close> names them.\<close>

datatype step_fn = DefaultStep | Escape | Unicode | SurrogateEscape | SurrogateEscapeU

text \<open>
  \<open>decoder\<close> is the pointer to the decoder the reader was made from: the reader carries
  the decoder's state, and whoever made the reader gets the state back from it.
  \<open>memory\<close> is the array \<open>[4]byte\<close>.  \<open>outputBuffer\<close> is a slice of \<open>memory\<close>;
  \<open>Read\<close> empties it before it calls \<open>step\<close> again, so it is never read after
  \<open>memory\<close> was written, and it is a list of its own here.
\<close>

record stringReader =
  decoder :: Decoder
  eof :: bool
  step :: step_fn
  memory :: "byte list"
  memoryOffset :: nat
  outputBuffer :: "byte list"
  surrogate :: nat

definition newStringReader :: "Decoder \<Rightarrow> stringReader" where
  "newStringReader d =
     \<lparr>decoder = d, eof = False, step = DefaultStep, memory = replicate 4 (CHR 0x00),
      memoryOffset = 0, outputBuffer = [], surrogate = 0\<rparr>"

text \<open>A step returns \<open>(output, ok, err)\<close> and the reader it changed.\<close>

type_synonym step_result = "(byte \<times> bool \<times> error option) \<times> stringReader"

definition defaultStep :: "stringReader \<Rightarrow> byte \<Rightarrow> step_result" where
  "defaultStep r input =
     (if input = quote then ((CHR 0x00, False, Some EOF), r\<lparr>eof := True\<rparr>)
      else if input = backslash then ((CHR 0x00, False, None), r\<lparr>step := Escape\<rparr>)
      else ((input, True, None), r))"

definition escape :: "stringReader \<Rightarrow> byte \<Rightarrow> step_result" where
  "escape r input =
     (if input = CHR ''u'' then ((CHR 0x00, False, None), r\<lparr>step := Unicode, memoryOffset := 0\<rparr>)
      else
        let r1 = r\<lparr>step := DefaultStep\<rparr> in
        if input = quote then ((quote, True, None), r1)
        else if input = backslash then ((backslash, True, None), r1)
        else if input = CHR ''/'' then ((CHR ''/'', True, None), r1)
        else if input = CHR ''b'' then ((CHR 0x08, True, None), r1)
        else if input = CHR ''f'' then ((CHR 0x0C, True, None), r1)
        else if input = CHR ''n'' then ((CHR 0x0A, True, None), r1)
        else if input = CHR ''r'' then ((CHR 0x0D, True, None), r1)
        else if input = CHR ''t'' then ((CHR 0x09, True, None), r1)
        else ((CHR 0x00, False, Some (err (decoder r1) (BadEscape input))), r1))"

text \<open>
  \<open>unicode\<close>.  \<open>r.memory[r.memoryOffset] = input\<close> panics when the index is 4 (which
  happens only when the reader is used again after an error of this step).
  \<open>utf8.EncodeRune(r.memory[:], cp)\<close> writes the encoding over the front of \<open>memory\<close>.
\<close>

definition unicode :: "stringReader \<Rightarrow> byte \<Rightarrow> step_result" where
  "unicode r input =
     (if (input < CHR ''0'' \<or> CHR ''9'' < input) \<and> (input < CHR ''a'' \<or> CHR ''f'' < input) \<and>
         (input < CHR ''A'' \<or> CHR ''F'' < input)
      then ((CHR 0x00, False, Some (err (decoder r) (BadUnicodeEscape input))), r)
      else if length (memory r) \<le> memoryOffset r then ((CHR 0x00, False, Some Panic), r)
      else
        let r1 = r\<lparr>memory := (memory r)[memoryOffset r := input],
                   memoryOffset := memoryOffset r + 1\<rparr> in
        if memoryOffset r1 < length (memory r1) then ((CHR 0x00, False, None), r1)
        else
          let cp = getu4 (memory r1) in
          if surrogate r1 = 0 then
            (if IsSurrogate cp then
               ((CHR 0x00, False, None), r1\<lparr>surrogate := cp, step := SurrogateEscape\<rparr>)
             else
               let s = EncodeRune cp in
               ((CHR 0x00, False, None),
                r1\<lparr>memory := s @ drop (length s) (memory r1), outputBuffer := s,
                   step := DefaultStep\<rparr>))
          else
            (if \<not> IsSurrogate cp then
               ((CHR 0x00, False, Some (err (decoder r1) IncompleteSurrogatePair)), r1)
             else
               let s = EncodeRune (DecodeRune (surrogate r1) cp) in
               ((CHR 0x00, False, None),
                r1\<lparr>memory := s @ drop (length s) (memory r1), outputBuffer := s,
                   surrogate := 0, step := DefaultStep\<rparr>)))"

definition surrogateEscape :: "stringReader \<Rightarrow> byte \<Rightarrow> step_result" where
  "surrogateEscape r input =
     (if input \<noteq> backslash
      then ((CHR 0x00, False, Some (err (decoder r) (ExpectedBackslash input))), r)
      else ((CHR 0x00, False, None), r\<lparr>step := SurrogateEscapeU\<rparr>))"

definition surrogateEscapeU :: "stringReader \<Rightarrow> byte \<Rightarrow> step_result" where
  "surrogateEscapeU r input =
     (if input \<noteq> CHR ''u''
      then ((CHR 0x00, False, Some (err (decoder r) (ExpectedU input))), r)
      else ((CHR 0x00, False, None), r\<lparr>step := Unicode, memoryOffset := 0\<rparr>))"

text \<open>The call \<open>r.step(r, input)\<close>.\<close>

definition call_step :: "stringReader \<Rightarrow> byte \<Rightarrow> step_result" where
  "call_step r input =
     (case step r of
        DefaultStep \<Rightarrow> defaultStep r input
      | Escape \<Rightarrow> escape r input
      | Unicode \<Rightarrow> unicode r input
      | SurrogateEscape \<Rightarrow> surrogateEscape r input
      | SurrogateEscapeU \<Rightarrow> surrogateEscapeU r input)"

lemma unicode_decoder: "decoder (snd (unicode r input)) = decoder r"
  unfolding unicode_def Let_def
  by (simp split del: if_split cong: if_cong
        add: if_distrib [of snd] if_distrib [of decoder])

lemma escape_decoder: "decoder (snd (escape r input)) = decoder r"
  unfolding escape_def Let_def
  by (simp split del: if_split cong: if_cong
        add: if_distrib [of snd] if_distrib [of decoder])

lemma call_step_decoder: "decoder (snd (call_step r input)) = decoder r"
  by (cases "step r")
     (simp_all add: call_step_def defaultStep_def unicode_decoder escape_decoder
        surrogateEscape_def surrogateEscapeU_def)

text \<open>
  \<open>Read\<close> takes the caller's slice \<open>p\<close> and returns \<open>(n, err)\<close>, the reader and what
  \<open>p\<close> holds after the call.  \<open>Read_loop\<close> is the \<open>for n < len(p)\<close> loop.
\<close>

function Read_loop ::
  "stringReader \<Rightarrow> byte list \<Rightarrow> nat \<Rightarrow> (nat \<times> error option) \<times> stringReader \<times> byte list" where
  "Read_loop r p n =
     (if n < length p then
        (if 0 < length (outputBuffer r) then
           Read_loop (r\<lparr>outputBuffer := tl (outputBuffer r)\<rparr>) (p[n := hd (outputBuffer r)]) (n + 1)
         else
           (case next_byte (decoder r) of
              (Inl e, d1) \<Rightarrow>
                if e \<noteq> EOF then ((0, Some e), r\<lparr>decoder := d1\<rparr>, p)
                else ((0, Some (err d1 UnexpectedEOFString)), r\<lparr>decoder := d1\<rparr>, p)
            | (Inr input, d1) \<Rightarrow>
                (case call_step (r\<lparr>decoder := d1\<rparr>) input of
                   ((output, ok, Some e), r2) \<Rightarrow> ((n, Some e), r2, p)
                 | ((output, ok, None), r2) \<Rightarrow>
                     if ok then Read_loop r2 (p[n := output]) (n + 1)
                     else Read_loop r2 p n)))
      else ((n, None), r, p))"
  by pat_completeness auto
termination
proof (relation "measures [\<lambda>(r, p, n). length (events (decoder r)), \<lambda>(r, p, n). length p - n]")
  show "wf (measures [\<lambda>(r, p, n). length (events (decoder r)), \<lambda>(r, p, n). length p - n])"
    by simp
next
  fix r :: stringReader and p :: "byte list" and n :: nat
  assume "n < length p"
  then show "((r\<lparr>outputBuffer := tl (outputBuffer r)\<rparr>, p[n := hd (outputBuffer r)], n + 1), r, p, n)
      \<in> measures [\<lambda>(r, p, n). length (events (decoder r)), \<lambda>(r, p, n). length p - n]"
    by auto
next
  fix r :: stringReader and p :: "byte list" and n :: nat
    and x d1 input xa y r2 outp ya ok e
  assume "(x, d1) = next_byte (decoder r)" and "x = Inr input"
    and "(xa, r2) = call_step (r\<lparr>decoder := d1\<rparr>) input"
  then have nb: "next_byte (decoder r) = (Inr input, d1)"
    and r2: "r2 = snd (call_step (r\<lparr>decoder := d1\<rparr>) input)"
    by (simp, metis snd_conv)
  from r2 have "decoder r2 = d1" by (simp add: call_step_decoder)
  with next_byte_length [OF nb]
  show "((r2, p[n := outp], n + 1), r, p, n)
      \<in> measures [\<lambda>(r, p, n). length (events (decoder r)), \<lambda>(r, p, n). length p - n]"
    by simp
next
  fix r :: stringReader and p :: "byte list" and n :: nat
    and x d1 input xa y r2 outp ya ok e
  assume "(x, d1) = next_byte (decoder r)" and "x = Inr input"
    and "(xa, r2) = call_step (r\<lparr>decoder := d1\<rparr>) input"
  then have nb: "next_byte (decoder r) = (Inr input, d1)"
    and r2: "r2 = snd (call_step (r\<lparr>decoder := d1\<rparr>) input)"
    by (simp, metis snd_conv)
  from r2 have "decoder r2 = d1" by (simp add: call_step_decoder)
  with next_byte_length [OF nb]
  show "((r2, p, n), r, p, n)
      \<in> measures [\<lambda>(r, p, n). length (events (decoder r)), \<lambda>(r, p, n). length p - n]"
    by simp
qed

declare Read_loop.simps [simp del]

definition Read :: "stringReader \<Rightarrow> byte list \<Rightarrow> (nat \<times> error option) \<times> stringReader \<times> byte list" where
  "Read r p = (if eof r then ((0, Some EOF), r, p) else Read_loop r p 0)"

text \<open>
  A bound for the termination of \<open>ReadAll\<close>: a byte that \<open>Read\<close> hands out was
  either queued or costs an event of the cursor, and a step queues at most four bytes.
\<close>

definition potential :: "stringReader \<Rightarrow> nat" where
  "potential r = 4 * length (events (decoder r)) + length (outputBuffer r)"

lemma EncodeRune_length: "length (EncodeRune c) \<le> 4"
  by (simp add: EncodeRune_def)

lemma call_step_outputBuffer:
  assumes "call_step r input = ((outp, ok, e), r2)"
  shows "(ok \<longrightarrow> outputBuffer r2 = outputBuffer r) \<and>
         (outputBuffer r2 = outputBuffer r \<or> length (outputBuffer r2) \<le> 4)"
proof (cases "step r")
  case DefaultStep
  with assms show ?thesis
    by (auto simp: call_step_def defaultStep_def split: if_splits)
next
  case Escape
  with assms show ?thesis
    by (auto simp: call_step_def escape_def Let_def split: if_splits)
next
  case Unicode
  with assms show ?thesis
    using EncodeRune_length
    by (auto simp: call_step_def unicode_def Let_def split: if_splits)
next
  case SurrogateEscape
  with assms show ?thesis
    by (auto simp: call_step_def surrogateEscape_def split: if_splits)
next
  case SurrogateEscapeU
  with assms show ?thesis
    by (auto simp: call_step_def surrogateEscapeU_def split: if_splits)
qed

lemma Read_loop_potential:
  "Read_loop r p n = ((m, None), r', p') \<Longrightarrow> potential r' + (length p - n) \<le> potential r"
proof (induction r p n rule: Read_loop.induct)
  case (1 r p n)
  show ?case
  proof (cases "n < length p")
    case False
    with "1.prems" show ?thesis
      by (subst (asm) Read_loop.simps) auto
  next
    case n: True
    show ?thesis
    proof (cases "0 < length (outputBuffer r)")
      case True
      with n "1.prems"
      have "Read_loop (r\<lparr>outputBuffer := tl (outputBuffer r)\<rparr>) (p[n := hd (outputBuffer r)]) (n + 1)
              = ((m, None), r', p')"
        by (subst (asm) Read_loop.simps) simp
      from "1.IH"(1) [OF n True this] True n show ?thesis
        by (cases "outputBuffer r") (auto simp: potential_def)
    next
      case ob: False
      obtain x d1 where nb: "next_byte (decoder r) = (x, d1)" by (cases "next_byte (decoder r)")
      show ?thesis
      proof (cases x)
        case (Inl e)
        with n ob nb "1.prems" show ?thesis
          by (subst (asm) Read_loop.simps) (simp split: if_splits)
      next
        case (Inr input)
        obtain outp ok e r2 where cs: "call_step (r\<lparr>decoder := d1\<rparr>) input = ((outp, ok, e), r2)"
          by (metis prod_cases3 surj_pair)
        from call_step_decoder [of "r\<lparr>decoder := d1\<rparr>" input] cs have d2: "decoder r2 = d1"
          by simp
        from nb Inr have nb': "next_byte (decoder r) = (Inr input, d1)" by simp
        from next_byte_length [OF nb'] have len: "length (events d1) < length (events (decoder r))" .
        from call_step_outputBuffer [OF cs] ob
        have ob2: "ok \<longrightarrow> outputBuffer r2 = []" "length (outputBuffer r2) \<le> 4"
          by auto
        show ?thesis
        proof (cases e)
          case (Some a)
          with n ob nb' cs "1.prems" show ?thesis
            by (subst (asm) Read_loop.simps) simp
        next
          case None
          show ?thesis
          proof (cases ok)
            case True
            with n ob nb' cs None "1.prems"
            have "Read_loop r2 (p[n := outp]) (n + 1) = ((m, None), r', p')"
              by (subst (asm) Read_loop.simps) simp
            from "1.IH"(2) [OF n ob nb' [symmetric] refl cs [symmetric] refl refl None True this]
            show ?thesis
              using len ob2 True d2 n by (simp add: potential_def)
          next
            case False
            with n ob nb' cs None "1.prems"
            have "Read_loop r2 p n = ((m, None), r', p')"
              by (subst (asm) Read_loop.simps) simp
            from "1.IH"(3) [OF n ob nb' [symmetric] refl cs [symmetric] refl refl None False this]
            show ?thesis
              using len ob2 d2 n by (simp add: potential_def)
          qed
        qed
      qed
    qed
  qed
qed

text \<open>
  \<open>ioutil.ReadAll\<close> of Go's standard library: it calls \<open>Read\<close> with the free part of
  a growing slice until \<open>Read\<close> returns an error, and returns what was read, with the
  error unless that is \<open>io.EOF\<close>.  The free part starts at 512 bytes and is never empty;
  here every call gets 512 bytes.  \<open>readString\<close> drops the bytes when there is an error.
\<close>

function ReadAll_loop :: "stringReader \<Rightarrow> byte list \<Rightarrow> (error + byte list) \<times> stringReader" where
  "ReadAll_loop r b =
     (case Read r (replicate 512 (CHR 0x00)) of
        ((n, e), r1, p1) \<Rightarrow>
          let b1 = b @ take n p1 in
          (case e of
             Some x \<Rightarrow> if x = EOF then (Inr b1, r1) else (Inl x, r1)
           | None \<Rightarrow> ReadAll_loop r1 b1))"
  by pat_completeness auto
termination
proof (relation "measure (\<lambda>(r, b). potential r)")
  show "wf (measure (\<lambda>(r, b). potential r))" by simp
next
  fix r :: stringReader and b :: "byte list" and x r1 n e y p1 b1
  assume "(x, y) = Read r (replicate 512 (CHR 0x00))" and "(n, e) = x" and "(r1, p1) = y"
    and "e = None"
  then have rd: "Read r (replicate 512 (CHR 0x00)) = ((n, None), r1, p1)" by simp
  then have "Read_loop r (replicate 512 (CHR 0x00)) 0 = ((n, None), r1, p1)"
    by (simp add: Read_def split: if_splits)
  from Read_loop_potential [OF this] have "potential r1 < potential r" by simp
  then show "((r1, b1), r, b) \<in> measure (\<lambda>(r, b). potential r)" by simp
qed

declare ReadAll_loop.simps [simp del]

definition ReadAll :: "stringReader \<Rightarrow> (error + byte list) \<times> stringReader" where
  "ReadAll r = ReadAll_loop r []"

definition readString :: "Decoder \<Rightarrow> (error + 'f Token) \<times> Decoder" where
  "readString d =
     (case ReadAll (newStringReader d) of
        (Inl e, r1) \<Rightarrow> (Inl (UnableToReadString e), decoder r1)
      | (Inr bs, r1) \<Rightarrow> (Inr (TString bs), decoder r1))"

subsection \<open>The token classifier and the two entry points\<close>

definition readToken ::
  "(byte list \<Rightarrow> num_err + 'f) \<Rightarrow> Decoder \<Rightarrow> byte \<Rightarrow> (error + 'f Token) \<times> Decoder" where
  "readToken ParseFloat d input =
     (if input = CHR ''{'' \<or> input = CHR ''}'' \<or> input = CHR ''['' \<or> input = CHR '']''
      then (Inr (TDelim input), d)
      else if input = quote then readString d
      else if input = CHR ''t'' then expect d ''rue'' (TBool True)
      else if input = CHR ''f'' then expect d ''alse'' (TBool False)
      else if input = CHR ''n'' then expect d ''ull'' TNull
      else if input = CHR ''-'' \<or> input = CHR ''.'' \<or> (CHR ''0'' \<le> input \<and> input \<le> CHR ''9'')
      then readNumber ParseFloat (undo d input)
      else (Inl (err d (BadInputByte input)), d))"

definition Token ::
  "(byte list \<Rightarrow> num_err + 'f) \<Rightarrow> Decoder \<Rightarrow> (error + 'f Token) \<times> Decoder" where
  "Token ParseFloat d =
     (case skipWhitespace d of
        (Inl e, d1) \<Rightarrow> (Inl e, d1)
      | (Inr input, d1) \<Rightarrow> readToken ParseFloat d1 input)"

text \<open>
  \<open>StringReader\<close> returns the reader (which holds the decoder) or the error and the
  decoder.
\<close>

definition StringReader :: "Decoder \<Rightarrow> error \<times> Decoder + stringReader" where
  "StringReader d =
     (case skipWhitespace d of
        (Inl e, d1) \<Rightarrow> Inl (e, d1)
      | (Inr input, d1) \<Rightarrow>
          if input \<noteq> quote then Inl (ErrNotString, undo d1 input)
          else Inr (newStringReader d1))"

text \<open>The results of \<open>k\<close> calls of \<open>Token\<close> in a row, and the decoder after them.\<close>

fun Token_calls ::
  "(byte list \<Rightarrow> num_err + 'f) \<Rightarrow> nat \<Rightarrow> Decoder \<Rightarrow> (error + 'f Token) list \<times> Decoder" where
  "Token_calls ParseFloat 0 d = ([], d)"
| "Token_calls ParseFloat (Suc k) d =
     (case Token ParseFloat d of
        (res, d1) \<Rightarrow>
          (case Token_calls ParseFloat k d1 of (ress, d2) \<Rightarrow> (res # ress, d2)))"

text \<open>
  Successive calls of \<open>Read\<close> on one reader, with the slices \<open>ps\<close>: the results
  \<open>(n, err)\<close>, each with what its slice holds afterwards, and the reader at the end.
\<close>

fun Read_calls :: "stringReader \<Rightarrow> byte list list \<Rightarrow> ((nat \<times> error option) \<times> byte list) list \<times> stringReader" where
  "Read_calls r [] = ([], r)"
| "Read_calls r (p # ps) =
     (case Read r p of
        (res, r1, p1) \<Rightarrow> (case Read_calls r1 ps of (ress, r2) \<Rightarrow> ((res, p1) # ress, r2)))"

text \<open>
  The two halves of the surrogate range, as the specification names them: a high
  surrogate is a code unit from \<open>0xD800\<close> to \<open>0xDBFF\<close>, a low surrogate one from
  \<open>0xDC00\<close> to \<open>0xDFFF\<close>.  The code does not tell them apart (it calls
  \<open>utf16.IsSurrogate\<close> for both).
\<close>

definition high_surrogate :: "nat \<Rightarrow> bool" where
  "high_surrogate r = (0xD800 \<le> r \<and> r \<le> 0xDBFF)"

definition low_surrogate :: "nat \<Rightarrow> bool" where
  "low_surrogate r = (0xDC00 \<le> r \<and> r \<le> 0xDFFF)"

text \<open>
  \<open>before_Fail xs e evs\<close>: the events \<open>xs\<close> are bytes, then the failure \<open>e\<close> of the
  source, then \<open>evs\<close>.
\<close>

definition before_Fail :: "event list \<Rightarrow> error \<Rightarrow> event list \<Rightarrow> bool" where
  "before_Fail xs e evs = (\<exists>bs. xs = map Byte bs @ Fail e # evs)"

text \<open>
  The classes of bytes the code tests for, the two ways a run of events can end (the
  source has nothing more, or its next answer is \<open>io.EOF\<close>), and the line and column
  after \<open>skipWhitespace\<close> has read some bytes.
\<close>

definition is_separator :: "byte \<Rightarrow> bool" where
  "is_separator c =
     (c = CHR '' '' \<or> c = CHR 0x0D \<or> c = CHR 0x0A \<or> c = CHR 0x09 \<or> c = CHR '','' \<or>
      c = CHR '':'')"

definition is_float_marker :: "byte \<Rightarrow> bool" where
  "is_float_marker c = (c = CHR ''.'' \<or> c = CHR ''e'' \<or> c = CHR ''E'')"

definition is_number_byte :: "byte \<Rightarrow> bool" where
  "is_number_byte c = (is_float_marker c \<or> c = CHR ''-'' \<or> (CHR ''0'' \<le> c \<and> c \<le> CHR ''9''))"

definition at_end :: "event list \<Rightarrow> bool" where
  "at_end evs = (evs = [] \<or> (\<exists>evs'. evs = Fail EOF # evs'))"

fun number_stop :: "event list \<Rightarrow> bool" where
  "number_stop [] = True"
| "number_stop (Byte c # evs) = (\<not> is_number_byte c)"
| "number_stop (Fail e # evs) = (e = EOF)"

fun after_stop :: "event list \<Rightarrow> event list" where
  "after_stop [] = []"
| "after_stop (Byte c # evs) = Byte c # evs"
| "after_stop (Fail e # evs) = evs"

fun advance :: "byte list \<Rightarrow> int \<times> int \<Rightarrow> int \<times> int" where
  "advance [] lc = lc"
| "advance (b # bs) (l, c) = advance bs (if b = CHR 0x0A then (l + 1, 1) else (l, c + 1))"

text \<open>
  What \<open>readNumber\<close> makes of the bytes it has scanned: the two conversions and
  their errors, at the position \<open>l\<close>, \<open>c\<close>.
\<close>

definition convert_number ::
  "(byte list \<Rightarrow> num_err + 'f) \<Rightarrow> byte list \<Rightarrow> int \<Rightarrow> int \<Rightarrow> error + 'f Token" where
  "convert_number pf run l c =
     (if \<exists>b\<in>set run. is_float_marker b then
        (case pf run of
           Inl e \<Rightarrow> Inl (ScanError l c (FailedScanFloat e))
         | Inr f \<Rightarrow> Inr (TFloat f))
      else
        (case ParseInt run of
           Inl e \<Rightarrow> Inl (ScanError l c (FailedScanInt e))
         | Inr i \<Rightarrow> Inr (TInt i)))"

text \<open>
  The bytes that make \<open>readToken\<close> call the number scanner, and the value of a decimal
  integer literal (an optional sign and one or more digits), against which
  \<open>ParseInt\<close> is measured.
\<close>

definition number_start :: "byte \<Rightarrow> bool" where
  "number_start c = (c = CHR ''-'' \<or> c = CHR ''.'' \<or> (CHR ''0'' \<le> c \<and> c \<le> CHR ''9''))"

definition digits_value :: "byte list \<Rightarrow> nat" where
  "digits_value cs = foldl (\<lambda>n c. n * 10 + digit_val c) 0 cs"

definition decimal_value :: "byte list \<Rightarrow> int option" where
  "decimal_value s =
     (let signed = (s \<noteq> [] \<and> (hd s = CHR ''+'' \<or> hd s = CHR ''-''));
          digits = (if signed then tl s else s)
      in if digits \<noteq> [] \<and> (\<forall>c\<in>set digits. is_digit c)
         then Some (if s \<noteq> [] \<and> hd s = CHR ''-'' then - int (digits_value digits)
                    else int (digits_value digits))
         else None)"

text \<open>
  What a reader has still to deliver, whatever slices it is read with: the decoded bytes
  up to the error that ends the reading (\<open>io.EOF\<close> at the closing quote), that error,
  whether it is a failure of the source, and the reader at that point.  This is the loop
  of \<open>Read\<close> without the slice.
\<close>

function drain :: "stringReader \<Rightarrow> byte list \<times> error \<times> bool \<times> stringReader" where
  "drain r =
     (if outputBuffer r \<noteq> [] then
        (case drain (r\<lparr>outputBuffer := tl (outputBuffer r)\<rparr>) of
           (out, res) \<Rightarrow> (hd (outputBuffer r) # out, res))
      else
        (case next_byte (decoder r) of
           (Inl e, d1) \<Rightarrow>
             ([], if e \<noteq> EOF then e else err d1 UnexpectedEOFString, True, r\<lparr>decoder := d1\<rparr>)
         | (Inr input, d1) \<Rightarrow>
             (case call_step (r\<lparr>decoder := d1\<rparr>) input of
                ((outp, ok, Some e), r2) \<Rightarrow> ([], e, False, r2)
              | ((outp, ok, None), r2) \<Rightarrow>
                  if ok then (case drain r2 of (out, res) \<Rightarrow> (outp # out, res))
                  else drain r2)))"
  by pat_completeness auto
termination
proof (relation "measures [\<lambda>r. length (events (decoder r)), \<lambda>r. length (outputBuffer r)]")
  show "wf (measures [\<lambda>r. length (events (decoder r)), \<lambda>r. length (outputBuffer r)])"
    by simp
next
  fix r :: stringReader
  assume "outputBuffer r \<noteq> []"
  then show "(r\<lparr>outputBuffer := tl (outputBuffer r)\<rparr>, r)
      \<in> measures [\<lambda>r. length (events (decoder r)), \<lambda>r. length (outputBuffer r)]"
    by (cases "outputBuffer r") auto
next
  fix r :: stringReader and x d1 input xa r2 outp ya ok e
  assume "(x, d1) = next_byte (decoder r)" and "x = Inr input"
    and "(xa, r2) = call_step (r\<lparr>decoder := d1\<rparr>) input"
  then have nb: "next_byte (decoder r) = (Inr input, d1)"
    and r2: "r2 = snd (call_step (r\<lparr>decoder := d1\<rparr>) input)"
    by (simp, metis snd_conv)
  from r2 have "decoder r2 = d1" by (simp add: call_step_decoder)
  with next_byte_length [OF nb]
  show "(r2, r) \<in> measures [\<lambda>r. length (events (decoder r)), \<lambda>r. length (outputBuffer r)]"
    by simp
next
  fix r :: stringReader and x d1 input xa r2 outp ya ok e
  assume "(x, d1) = next_byte (decoder r)" and "x = Inr input"
    and "(xa, r2) = call_step (r\<lparr>decoder := d1\<rparr>) input"
  then have nb: "next_byte (decoder r) = (Inr input, d1)"
    and r2: "r2 = snd (call_step (r\<lparr>decoder := d1\<rparr>) input)"
    by (simp, metis snd_conv)
  from r2 have "decoder r2 = d1" by (simp add: call_step_decoder)
  with next_byte_length [OF nb]
  show "(r2, r) \<in> measures [\<lambda>r. length (events (decoder r)), \<lambda>r. length (outputBuffer r)]"
    by simp
qed

declare drain.simps [simp del]

text \<open>
  The string decoder as the specification describes it (section 4.5): a state tag, an
  optional pending surrogate and a transition function on one raw byte.  \<open>S_UnicodeHex\<close>
  carries the hex digits read so far; \<open>S_Surrogate b\<close> is the surrogate continuation,
  before (\<open>False\<close>) and after (\<open>True\<close>) its backslash.  A transition ends the string,
  fails, or gives the next state, the pending surrogate and the decoded bytes.  The test for
  a surrogate is the one the code makes, \<open>IsSurrogate\<close>, for either half of a pair.
\<close>

datatype dstate = S_Default | S_Escape | S_UnicodeHex "byte list" | S_Surrogate bool

datatype transition_result = T_Close | T_Bad | T_Next dstate "nat option" "byte list"

definition escape_table :: "byte \<Rightarrow> byte option" where
  "escape_table c =
     (if c = quote then Some quote
      else if c = backslash then Some backslash
      else if c = CHR ''/'' then Some (CHR ''/'')
      else if c = CHR ''b'' then Some (CHR 0x08)
      else if c = CHR ''f'' then Some (CHR 0x0C)
      else if c = CHR ''n'' then Some (CHR 0x0A)
      else if c = CHR ''r'' then Some (CHR 0x0D)
      else if c = CHR ''t'' then Some (CHR 0x09)
      else None)"

fun transition :: "dstate \<Rightarrow> nat option \<Rightarrow> byte \<Rightarrow> transition_result" where
  "transition S_Default pend c =
     (if c = quote then T_Close
      else if c = backslash then T_Next S_Escape pend []
      else T_Next S_Default pend [c])"
| "transition S_Escape pend c =
     (if c = CHR ''u'' then T_Next (S_UnicodeHex []) pend []
      else case escape_table c of
             None \<Rightarrow> T_Bad
           | Some b \<Rightarrow> T_Next S_Default pend [b])"
| "transition (S_UnicodeHex ds) pend c =
     (if hex_val c = None then T_Bad
      else if length ds < 3 then T_Next (S_UnicodeHex (ds @ [c])) pend []
      else
        let cp = getu4 (ds @ [c]) in
        case pend of
          None \<Rightarrow>
            if IsSurrogate cp then T_Next (S_Surrogate False) (Some cp) []
            else T_Next S_Default None (EncodeRune cp)
        | Some hi \<Rightarrow>
            if IsSurrogate cp then T_Next S_Default None (EncodeRune (DecodeRune hi cp))
            else T_Bad)"
| "transition (S_Surrogate False) pend c =
     (if c = backslash then T_Next (S_Surrogate True) pend [] else T_Bad)"
| "transition (S_Surrogate True) pend c =
     (if c = CHR ''u'' then T_Next (S_UnicodeHex []) pend [] else T_Bad)"

text \<open>
  The machine run over the bytes after the opening quote: the body is closed (with the
  decoded bytes and the bytes that follow the closing quote), still open when the bytes
  end, or malformed.
\<close>

datatype body_result = Closed "byte list" "byte list" | Open | Malformed

fun emit :: "byte list \<Rightarrow> body_result \<Rightarrow> body_result" where
  "emit bs (Closed s rest) = Closed (bs @ s) rest"
| "emit bs Open = Open"
| "emit bs Malformed = Malformed"

fun decode_body :: "dstate \<Rightarrow> nat option \<Rightarrow> byte list \<Rightarrow> body_result" where
  "decode_body st pend [] = Open"
| "decode_body st pend (c # cs) =
     (case transition st pend c of
        T_Close \<Rightarrow> Closed [] cs
      | T_Bad \<Rightarrow> Malformed
      | T_Next st' pend' bs \<Rightarrow> emit bs (decode_body st' pend' cs))"

text \<open>
  \<open>reader_at r st pend\<close>: the reader \<open>r\<close> of the code is in the state \<open>st\<close> of the machine
  with the pending surrogate \<open>pend\<close> and nothing queued.  \<open>step_matches r c t\<close>: the step
  function of \<open>r\<close> on the byte \<open>c\<close> does what the transition \<open>t\<close> says.
\<close>

definition reader_at :: "stringReader \<Rightarrow> dstate \<Rightarrow> nat option \<Rightarrow> bool" where
  "reader_at r st pend =
     (outputBuffer r = [] \<and> length (memory r) = 4 \<and>
      surrogate r = (case pend of None \<Rightarrow> 0 | Some hi \<Rightarrow> hi) \<and> pend \<noteq> Some 0 \<and>
      (case st of
         S_Default \<Rightarrow> step r = DefaultStep
       | S_Escape \<Rightarrow> step r = Escape
       | S_UnicodeHex ds \<Rightarrow>
           step r = Unicode \<and> memoryOffset r = length ds \<and> length ds \<le> 3 \<and>
           take (length ds) (memory r) = ds
       | S_Surrogate b \<Rightarrow> step r = (if b then SurrogateEscapeU else SurrogateEscape)))"

definition step_matches :: "stringReader \<Rightarrow> byte \<Rightarrow> transition_result \<Rightarrow> bool" where
  "step_matches r c t =
     (case t of
        T_Close \<Rightarrow> call_step r c = ((CHR 0x00, False, Some EOF), r\<lparr>eof := True\<rparr>)
      | T_Bad \<Rightarrow> True
      | T_Next st' pend' bs \<Rightarrow>
          (case call_step r c of
             ((outp, ok, e), r2) \<Rightarrow>
               e = None \<and> bs = (if ok then [outp] else []) @ outputBuffer r2 \<and>
               (ok \<longrightarrow> outputBuffer r2 = []) \<and>
               reader_at (r2\<lparr>outputBuffer := []\<rparr>) st' pend'))"

text \<open>
  The spelling of a token: \<open>spelling pf tok bs\<close> says that the bytes \<open>bs\<close> are a
  way to write the token \<open>tok\<close>.  A delimiter is its byte, a literal its word; a number
  is a run of at most 64 number bytes that begins like a number and that the conversion
  accepts, a float if a marker occurs in it and an integer otherwise; a string is a quote
  and a body that the string machine closes at its last byte.
\<close>

definition number_text :: "byte list \<Rightarrow> bool" where
  "number_text bs =
     (bs \<noteq> [] \<and> number_start (hd bs) \<and> (\<forall>b\<in>set bs. is_number_byte b) \<and> length bs \<le> 64)"

fun spelling :: "(byte list \<Rightarrow> num_err + 'f) \<Rightarrow> 'f Token \<Rightarrow> byte list \<Rightarrow> bool" where
  "spelling pf (TDelim c) bs =
     ((c = CHR ''{'' \<or> c = CHR ''}'' \<or> c = CHR ''['' \<or> c = CHR '']'') \<and> bs = [c])"
| "spelling pf (TBool b) bs = (bs = (if b then ''true'' else ''false''))"
| "spelling pf TNull bs = (bs = ''null'')"
| "spelling pf (TInt i) bs =
     (number_text bs \<and> (\<forall>b\<in>set bs. \<not> is_float_marker b) \<and> ParseInt bs = Inr i)"
| "spelling pf (TFloat f) bs =
     (number_text bs \<and> (\<exists>b\<in>set bs. is_float_marker b) \<and> pf bs = Inr f)"
| "spelling pf (TString s) bs =
     (case bs of
        [] \<Rightarrow> False
      | q # body \<Rightarrow> q = quote \<and> decode_body S_Default None body = Closed s [])"

fun is_number :: "'f Token \<Rightarrow> bool" where
  "is_number (TInt i) = True"
| "is_number (TFloat f) = True"
| "is_number tok = False"

text \<open>
  An input laid out as tokens and separators: for each token the separators before it
  and its bytes, and the separators \<open>fin\<close> after the last token.  It is well formed for
  the tokens \<open>toks\<close> when the separators are separators, each token is spelled by its
  bytes, and a number is not followed at once by a byte that would continue it.  A run of
  events has ended when the source only answers \<open>io.EOF\<close> from there on.
\<close>

fun layout :: "(byte list \<times> byte list) list \<Rightarrow> byte list \<Rightarrow> byte list" where
  "layout [] fin = fin"
| "layout ((seps, bs) # ps) fin = seps @ bs @ layout ps fin"

definition starts_number :: "byte list \<Rightarrow> bool" where
  "starts_number bs = (bs \<noteq> [] \<and> is_number_byte (hd bs))"

fun well_formed ::
  "(byte list \<Rightarrow> num_err + 'f) \<Rightarrow> 'f Token list \<Rightarrow> (byte list \<times> byte list) list \<Rightarrow> byte list \<Rightarrow>
   bool" where
  "well_formed pf [] [] fin = (\<forall>b\<in>set fin. is_separator b)"
| "well_formed pf (tok # toks) ((seps, bs) # ps) fin =
     ((\<forall>b\<in>set seps. is_separator b) \<and> spelling pf tok bs \<and>
      (is_number tok \<longrightarrow> \<not> starts_number (layout ps fin)) \<and> well_formed pf toks ps fin)"
| "well_formed pf [] (p # ps) fin = False"
| "well_formed pf (tok # toks) [] fin = False"

definition ended :: "event list \<Rightarrow> bool" where
  "ended evs = (\<forall>e\<in>set evs. e = Fail EOF)"

text \<open>
  Two results are the same but for the column of a scan error: the column counts the
  bytes that \<open>skipWhitespace\<close> has read, and a byte that was pushed back is read, and
  counted, again.
\<close>

fun forget_column :: "error \<Rightarrow> error" where
  "forget_column (ScanError l k m) = ScanError l 0 m"
| "forget_column (UnableToReadString e) = UnableToReadString (forget_column e)"
| "forget_column e = e"

definition same_result :: "error + 'a \<Rightarrow> error + 'a \<Rightarrow> bool" where
  "same_result ra rb = (map_sum forget_column (\<lambda>x. x) ra = map_sum forget_column (\<lambda>x. x) rb)"

section \<open>Properties\<close>

subsection \<open>The loop of \<open>Read\<close>, case by case\<close>

lemma Read_loop_full:
  "\<not> n < length p \<Longrightarrow> Read_loop r p n = ((n, None), r, p)"
  by (subst Read_loop.simps) simp

lemma Read_loop_drain:
  "n < length p \<Longrightarrow> outputBuffer r \<noteq> [] \<Longrightarrow>
   Read_loop r p n =
     Read_loop (r\<lparr>outputBuffer := tl (outputBuffer r)\<rparr>) (p[n := hd (outputBuffer r)]) (n + 1)"
  by (subst Read_loop.simps) simp

lemma Read_loop_fail:
  "n < length p \<Longrightarrow> outputBuffer r = [] \<Longrightarrow> next_byte (decoder r) = (Inl e, d1) \<Longrightarrow>
   Read_loop r p n =
     ((0, Some (if e \<noteq> EOF then e else err d1 UnexpectedEOFString)), r\<lparr>decoder := d1\<rparr>, p)"
  by (subst Read_loop.simps) simp

lemma Read_loop_step_err:
  "n < length p \<Longrightarrow> outputBuffer r = [] \<Longrightarrow> next_byte (decoder r) = (Inr input, d1) \<Longrightarrow>
   call_step (r\<lparr>decoder := d1\<rparr>) input = ((outp, ok, Some e), r2) \<Longrightarrow>
   Read_loop r p n = ((n, Some e), r2, p)"
  by (subst Read_loop.simps) simp

lemma Read_loop_emit:
  "n < length p \<Longrightarrow> outputBuffer r = [] \<Longrightarrow> next_byte (decoder r) = (Inr input, d1) \<Longrightarrow>
   call_step (r\<lparr>decoder := d1\<rparr>) input = ((outp, True, None), r2) \<Longrightarrow>
   Read_loop r p n = Read_loop r2 (p[n := outp]) (n + 1)"
  by (subst Read_loop.simps) simp

lemma Read_loop_skip:
  "n < length p \<Longrightarrow> outputBuffer r = [] \<Longrightarrow> next_byte (decoder r) = (Inr input, d1) \<Longrightarrow>
   call_step (r\<lparr>decoder := d1\<rparr>) input = ((outp, False, None), r2) \<Longrightarrow>
   Read_loop r p n = Read_loop r2 p n"
  by (subst Read_loop.simps) simp

lemma Read_loop_induct [case_names full drain fail step_err emit skip]:
  assumes full: "\<And>r p n. \<not> n < length p \<Longrightarrow> P r p n"
    and drain: "\<And>r p n. n < length p \<Longrightarrow> outputBuffer r \<noteq> [] \<Longrightarrow>
        P (r\<lparr>outputBuffer := tl (outputBuffer r)\<rparr>) (p[n := hd (outputBuffer r)]) (n + 1) \<Longrightarrow>
        P r p n"
    and fail: "\<And>r p n e d1. n < length p \<Longrightarrow> outputBuffer r = [] \<Longrightarrow>
        next_byte (decoder r) = (Inl e, d1) \<Longrightarrow> P r p n"
    and step_err: "\<And>r p n input d1 outp ok e r2. n < length p \<Longrightarrow> outputBuffer r = [] \<Longrightarrow>
        next_byte (decoder r) = (Inr input, d1) \<Longrightarrow>
        call_step (r\<lparr>decoder := d1\<rparr>) input = ((outp, ok, Some e), r2) \<Longrightarrow> P r p n"
    and emit: "\<And>r p n input d1 outp r2. n < length p \<Longrightarrow> outputBuffer r = [] \<Longrightarrow>
        next_byte (decoder r) = (Inr input, d1) \<Longrightarrow>
        call_step (r\<lparr>decoder := d1\<rparr>) input = ((outp, True, None), r2) \<Longrightarrow>
        P r2 (p[n := outp]) (n + 1) \<Longrightarrow> P r p n"
    and skip: "\<And>r p n input d1 outp r2. n < length p \<Longrightarrow> outputBuffer r = [] \<Longrightarrow>
        next_byte (decoder r) = (Inr input, d1) \<Longrightarrow>
        call_step (r\<lparr>decoder := d1\<rparr>) input = ((outp, False, None), r2) \<Longrightarrow>
        P r2 p n \<Longrightarrow> P r p n"
  shows "P r p n"
proof (induction r p n rule: Read_loop.induct)
  case (1 r p n)
  show ?case
  proof (cases "n < length p")
    case False
    then show ?thesis by (rule full)
  next
    case n: True
    show ?thesis
    proof (cases "0 < length (outputBuffer r)")
      case True
      then have "outputBuffer r \<noteq> []" by auto
      from drain [OF n this "1.IH"(1) [OF n True]] show ?thesis .
    next
      case ob: False
      then have ob': "outputBuffer r = []" by simp
      obtain x d1 where nb: "next_byte (decoder r) = (x, d1)" by (cases "next_byte (decoder r)")
      show ?thesis
      proof (cases x)
        case (Inl e)
        with nb fail [OF n ob'] show ?thesis by simp
      next
        case (Inr input)
        with nb have nb': "next_byte (decoder r) = (Inr input, d1)" by simp
        obtain outp ok e r2 where cs: "call_step (r\<lparr>decoder := d1\<rparr>) input = ((outp, ok, e), r2)"
          by (metis prod_cases3 surj_pair)
        show ?thesis
        proof (cases e)
          case (Some a)
          with step_err [OF n ob' nb'] cs show ?thesis by simp
        next
          case None
          show ?thesis
          proof (cases ok)
            case True
            from "1.IH"(2) [OF n ob nb' [symmetric] refl cs [symmetric] refl refl None True]
            have "P r2 (p[n := outp]) (n + 1)" .
            with emit [OF n ob' nb'] cs None True show ?thesis by simp
          next
            case False
            from "1.IH"(3) [OF n ob nb' [symmetric] refl cs [symmetric] refl refl None False]
            have "P r2 p n" .
            with skip [OF n ob' nb'] cs None False show ?thesis by simp
          qed
        qed
      qed
    qed
  qed
qed

lemmas run_simps =
  NewDecoder_def newStringReader_def Read_def Read_loop.simps next_byte.simps source_Read_def
  bufferSize_def call_step_def defaultStep_def events_def err_def

subsection \<open>An exhausted string reader\<close>

lemma call_step_EOF:
  assumes "call_step r input = ((outp, ok, Some EOF), r2)"
  shows "eof r2"
proof (cases "step r")
  case DefaultStep
  with assms show ?thesis
    by (auto simp: call_step_def defaultStep_def split: if_splits)
next
  case Escape
  with assms show ?thesis
    by (auto simp: call_step_def escape_def Let_def err_def split: if_splits)
next
  case Unicode
  with assms show ?thesis
    by (auto simp: call_step_def unicode_def Let_def err_def split: if_splits)
next
  case SurrogateEscape
  with assms show ?thesis
    by (auto simp: call_step_def surrogateEscape_def err_def split: if_splits)
next
  case SurrogateEscapeU
  with assms show ?thesis
    by (auto simp: call_step_def surrogateEscapeU_def err_def split: if_splits)
qed

lemma Read_loop_EOF:
  "Read_loop r p n = ((m, Some EOF), r', p') \<Longrightarrow> eof r'"
proof (induction r p n rule: Read_loop_induct)
  case (full r p n)
  then show ?case by (simp add: Read_loop_full)
next
  case (drain r p n)
  then show ?case by (simp add: Read_loop_drain)
next
  case (fail r p n e d1)
  then show ?case by (simp add: Read_loop_fail err_def split: if_splits)
next
  case (step_err r p n input d1 outp ok e r2)
  from step_err.prems have "e = EOF" and "r' = r2"
    by (simp_all add: Read_loop_step_err [OF step_err.hyps])
  with step_err.hyps(4) show ?case by (auto dest: call_step_EOF)
next
  case (emit r p n input d1 outp r2)
  then show ?case by (simp add: Read_loop_emit [OF emit.hyps])
next
  case (skip r p n input d1 outp r2)
  then show ?case by (simp add: Read_loop_skip [OF skip.hyps])
qed

lemma Read_calls_eof:
  "eof r \<Longrightarrow> Read_calls r ps = (map (\<lambda>p. ((0, Some EOF), p)) ps, r)"
  by (induction ps) (simp_all add: Read_def)

text \<open>
  Claim C6.  The closing quote is what makes \<open>Read\<close> return \<open>io.EOF\<close>, and it sets the
  flag \<open>eof\<close>; from then on every call of \<open>Read\<close>, with whatever slices, returns
  zero bytes and \<open>io.EOF\<close>, changes nothing in the reader or the slice, and is never an
  error of another kind.
\<close>

theorem Read_after_closing_quote:
  "(Read r p = ((n, Some EOF), r1, p1) \<longrightarrow> eof r1) \<and>
   (eof r \<longrightarrow> Read_calls r ps = (map (\<lambda>p. ((0, Some EOF), p)) ps, r))"
proof (intro conjI impI)
  assume "Read r p = ((n, Some EOF), r1, p1)"
  then show "eof r1"
    by (auto simp: Read_def split: if_splits dest: Read_loop_EOF)
next
  assume "eof r"
  then show "Read_calls r ps = (map (\<lambda>p. ((0, Some EOF), p)) ps, r)"
    by (rule Read_calls_eof)
qed

theorem Read_after_closing_quote_witness:
  "fst (Read (newStringReader (NewDecoder [(''ab'' @ [quote] @ ''c'', None)])) ''....'')
     = (2, Some EOF) \<and>
   eof (fst (snd (Read (newStringReader (NewDecoder [(''ab'' @ [quote] @ ''c'', None)])) ''....''))) \<and>
   fst (Read_calls
         (fst (snd (Read (newStringReader (NewDecoder [(''ab'' @ [quote] @ ''c'', None)])) ''....'')))
         [''....'', ''..'', []])
     = [((0, Some EOF), ''....''), ((0, Some EOF), ''..''), ((0, Some EOF), [])]"
proof -
  let ?r = "newStringReader (NewDecoder [(''ab'' @ [quote] @ ''c'', None)])"
  let ?r1 = "fst (snd (Read ?r ''....''))"
  have rd: "fst (Read ?r ''....'') = (2, Some EOF)"
    by (simp add: run_simps)
  then have "Read ?r ''....'' = ((2, Some EOF), ?r1, snd (snd (Read ?r ''....'')))"
    by (metis prod.collapse)
  with Read_after_closing_quote [of ?r "''....''" 2 ?r1 "snd (snd (Read ?r ''....''))"]
  have e: "eof ?r1" by blast
  with Read_after_closing_quote [of ?r1 _ _ _ _ "[''....'', ''..'', []]"]
  have "Read_calls ?r1 [''....'', ''..'', []] =
          (map (\<lambda>p. ((0, Some EOF), p)) [''....'', ''..'', []], ?r1)"
    by blast
  with rd e show ?thesis by simp
qed

subsection \<open>A source that fails during \<open>Read\<close>\<close>

lemma call_step_not_source_error:
  assumes "call_step r input = ((outp, ok, Some x), r2)"
  shows "x \<noteq> IOError s \<and> x \<noteq> ScanError l c UnexpectedEOFString"
proof (cases "step r")
  case DefaultStep
  with assms show ?thesis
    by (auto simp: call_step_def defaultStep_def split: if_splits)
next
  case Escape
  with assms show ?thesis
    by (auto simp: call_step_def escape_def Let_def err_def split: if_splits)
next
  case Unicode
  with assms show ?thesis
    by (auto simp: call_step_def unicode_def Let_def err_def split: if_splits)
next
  case SurrogateEscape
  with assms show ?thesis
    by (auto simp: call_step_def surrogateEscape_def err_def split: if_splits)
next
  case SurrogateEscapeU
  with assms show ?thesis
    by (auto simp: call_step_def surrogateEscapeU_def err_def split: if_splits)
qed

lemma Read_loop_source_error_zero:
  "Read_loop r p n = ((m, Some x), r', p') \<Longrightarrow>
   x = IOError s \<or> x = ScanError l c UnexpectedEOFString \<Longrightarrow> m = 0"
proof (induction r p n rule: Read_loop_induct)
  case (full r p n)
  then show ?case by (simp add: Read_loop_full)
next
  case (drain r p n)
  then show ?case by (simp add: Read_loop_drain)
next
  case (fail r p n e d1)
  then show ?case by (simp add: Read_loop_fail split: if_splits)
next
  case (step_err r p n input d1 outp ok e r2)
  from step_err.prems have "e = x"
    by (simp add: Read_loop_step_err [OF step_err.hyps])
  with step_err.hyps(4) step_err.prems(2) call_step_not_source_error [of _ _ _ _ x _ s l c]
  show ?case by blast
next
  case (emit r p n input d1 outp r2)
  then show ?case by (simp add: Read_loop_emit [OF emit.hyps])
next
  case (skip r p n input d1 outp r2)
  then show ?case by (simp add: Read_loop_skip [OF skip.hyps])
qed

lemma Read_loop_consumed_Fail:
  "Read_loop r p n = ((m, x), r', p') \<Longrightarrow>
   events (decoder r) = map Byte bs @ Fail e # evs \<Longrightarrow> events (decoder r') = evs \<Longrightarrow>
   m = 0 \<and> x = Some (if e \<noteq> EOF then e else err (decoder r') UnexpectedEOFString)"
proof (induction r p n arbitrary: bs rule: Read_loop_induct)
  case (full r p n)
  from full.prems(1) have "r' = r" by (simp add: Read_loop_full [OF full.hyps])
  with full.prems(2,3) have "length evs = length (map Byte bs @ Fail e # evs)" by simp
  then show ?case by simp
next
  case (drain r p n)
  from drain.prems(1) drain.IH [of bs] drain.prems(2,3) show ?case
    by (simp add: Read_loop_drain [OF drain.hyps])
next
  case (fail r p n e0 d1)
  from next_byte_Inl [OF fail.hyps(3)] fail.prems(2)
  have ev: "Fail e0 # events d1 = map Byte bs @ Fail e # evs" by auto
  then have "bs = []" by (cases bs) auto
  with ev have "e0 = e" by simp
  with fail.prems(1) show ?case
    by (auto simp: Read_loop_fail [OF fail.hyps])
next
  case (step_err r p n input d1 outp ok e0 r2)
  from step_err.prems(1) have "r' = r2"
    by (simp add: Read_loop_step_err [OF step_err.hyps])
  moreover from call_step_decoder [of "r\<lparr>decoder := d1\<rparr>" input] step_err.hyps(4)
  have "decoder r2 = d1" by simp
  moreover from next_byte_Inr [OF step_err.hyps(3)] step_err.prems(2)
  have "Byte input # events d1 = map Byte bs @ Fail e # evs" by simp
  ultimately have "Byte input # evs = map Byte bs @ Fail e # evs"
    using step_err.prems(3) by simp
  then have "length (Byte input # evs) = length (map Byte bs @ Fail e # evs)" by simp
  then have "bs = []" by simp
  with \<open>Byte input # evs = map Byte bs @ Fail e # evs\<close> show ?case by simp
next
  case (emit r p n input d1 outp r2)
  from call_step_decoder [of "r\<lparr>decoder := d1\<rparr>" input] emit.hyps(4)
  have d2: "decoder r2 = d1" by simp
  from next_byte_Inr [OF emit.hyps(3)] emit.prems(2)
  have ev: "Byte input # events d1 = map Byte bs @ Fail e # evs" by simp
  then obtain bs' where "bs = input # bs'" by (cases bs) auto
  with ev d2 have "events (decoder r2) = map Byte bs' @ Fail e # evs" by simp
  from emit.IH [OF _ this emit.prems(3)] emit.prems(1) show ?case
    by (simp add: Read_loop_emit [OF emit.hyps])
next
  case (skip r p n input d1 outp r2)
  from call_step_decoder [of "r\<lparr>decoder := d1\<rparr>" input] skip.hyps(4)
  have d2: "decoder r2 = d1" by simp
  from next_byte_Inr [OF skip.hyps(3)] skip.prems(2)
  have ev: "Byte input # events d1 = map Byte bs @ Fail e # evs" by simp
  then obtain bs' where "bs = input # bs'" by (cases bs) auto
  with ev d2 have "events (decoder r2) = map Byte bs' @ Fail e # evs" by simp
  from skip.IH [OF _ this skip.prems(3)] skip.prems(1) show ?case
    by (simp add: Read_loop_skip [OF skip.hyps])
qed

text \<open>
  Claim C10.  When a call of \<open>Read\<close> reaches a failure of the byte source (the events of
  the cursor start with the bytes \<open>bs\<close>, then the failure \<open>e\<close>, and the call has used
  them all up), it returns the count 0 with the error, however many decoded bytes it has
  written to the slice before; the same holds for the end of the source inside the string
  (the only place that makes the error "unexpected EOF while reading string").
\<close>

theorem Read_source_failure_count_zero:
  "(Read r p = ((m, x), r', p') \<and> events (decoder r) = map Byte bs @ Fail e # evs \<and>
    events (decoder r') = evs \<longrightarrow>
      m = 0 \<and> x = Some (if e \<noteq> EOF then e else err (decoder r') UnexpectedEOFString)) \<and>
   (Read r p = ((m, Some (ScanError l c UnexpectedEOFString)), r', p') \<longrightarrow> m = 0)"
proof (rule conjI; rule impI)
  assume a: "Read r p = ((m, x), r', p') \<and> events (decoder r) = map Byte bs @ Fail e # evs \<and>
    events (decoder r') = evs"
  show "m = 0 \<and> x = Some (if e \<noteq> EOF then e else err (decoder r') UnexpectedEOFString)"
  proof (cases "eof r")
    case True
    with a have r: "r' = r" by (simp add: Read_def)
    from a have e1: "events (decoder r) = map Byte bs @ Fail e # evs"
      and e2: "events (decoder r') = evs" by blast+
    from e1 have "length (events (decoder r)) = length bs + 1 + length evs" by simp
    moreover from e2 r have "length (events (decoder r)) = length evs" by simp
    ultimately have False by simp
    then show ?thesis ..
  next
    case False
    with a have "Read_loop r p 0 = ((m, x), r', p')" by (simp add: Read_def)
    from Read_loop_consumed_Fail [OF this] a show ?thesis by blast
  qed
next
  assume "Read r p = ((m, Some (ScanError l c UnexpectedEOFString)), r', p')"
  then have "Read_loop r p 0 = ((m, Some (ScanError l c UnexpectedEOFString)), r', p')"
    by (simp add: Read_def split: if_splits)
  from Read_loop_source_error_zero [OF this] show "m = 0" by simp
qed

text \<open>
  The \<open>badReader\<close> of the tests after \<open>foo\<close>: the three bytes are in the caller's slice,
  the count is 0.
\<close>

theorem Read_source_failure_count_zero_witness:
  "events (decoder (newStringReader (NewDecoder
       [(''f'', None), (''o'', None), (''o'', None), ([], Some (IOError ''random IO error''))])))
     = map Byte ''foo'' @ Fail (IOError ''random IO error'') # [] \<and>
   Read (newStringReader (NewDecoder
       [(''f'', None), (''o'', None), (''o'', None), ([], Some (IOError ''random IO error''))]))
     ''........''
     = ((0, Some (IOError ''random IO error'')),
        newStringReader
          \<lparr>source = [], d_eof = False, line = 1, column = 1, buffer = ''o'', offset = 1,
           preparedByte = CHR 0x00, preparedValid = False\<rparr>,
        ''foo.....'')"
proof -
  let ?r = "newStringReader (NewDecoder
       [(''f'', None), (''o'', None), (''o'', None), ([], Some (IOError ''random IO error''))])"
  let ?r' = "fst (snd (Read ?r ''........''))"
  have ev: "events (decoder ?r) = map Byte ''foo'' @ Fail (IOError ''random IO error'') # []"
    by (simp add: run_simps)
  have ev': "events (decoder ?r') = []"
    by (simp add: run_simps)
  have rd: "Read ?r ''........'' = (fst (Read ?r ''........''), ?r', snd (snd (Read ?r ''........'')))"
    by simp
  obtain m x where mx: "fst (Read ?r ''........'') = (m, x)"
    by (cases "fst (Read ?r ''........'')")
  from Read_source_failure_count_zero
         [of ?r "''........''" m x ?r' "snd (snd (Read ?r ''........''))" "''foo''"
             "IOError ''random IO error''" "[]"]
       rd mx ev ev'
  have "m = 0 \<and> x = Some (IOError ''random IO error'')" by simp
  with mx have "fst (Read ?r ''........'') = (0, Some (IOError ''random IO error''))" by simp
  moreover have "snd (Read ?r ''........'') =
      (newStringReader
          \<lparr>source = [], d_eof = False, line = 1, column = 1, buffer = ''o'', offset = 1,
           preparedByte = CHR 0x00, preparedValid = False\<rparr>,
        ''foo.....'')"
    by (simp add: run_simps)
  ultimately show ?thesis using ev by (metis prod.collapse)
qed

subsection \<open>The fourth digit of a unicode escape\<close>

lemma hex_val_bound: "hex_val c = Some v \<Longrightarrow> v < 16"
  by (auto simp: hex_val_def less_eq_char_def split: if_splits)

lemma not_hex_iff:
  "((input < CHR ''0'' \<or> CHR ''9'' < input) \<and> (input < CHR ''a'' \<or> CHR ''f'' < input) \<and>
    (input < CHR ''A'' \<or> CHR ''F'' < input)) = (hex_val input = None)"
  by (auto simp: hex_val_def)

lemma getu4_bound:
  assumes "hex_val h1 \<noteq> None" "hex_val h2 \<noteq> None" "hex_val h3 \<noteq> None" "hex_val h4 \<noteq> None"
  shows "getu4 [h1, h2, h3, h4] < 65536"
proof -
  from assms obtain v1 v2 v3 v4 where v: "hex_val h1 = Some v1" "hex_val h2 = Some v2"
    "hex_val h3 = Some v3" "hex_val h4 = Some v4" by auto
  from v have "v1 < 16" "v2 < 16" "v3 < 16" "v4 < 16" by (auto dest: hex_val_bound)
  with v show ?thesis by (simp add: getu4_def)
qed

lemma EncodeRune_bmp:
  "r < 65536 \<Longrightarrow> 1 \<le> length (EncodeRune r) \<and> length (EncodeRune r) \<le> 3"
  by (simp add: EncodeRune_def)

lemma DecodeRune_pair:
  "high_surrogate r1 \<Longrightarrow> low_surrogate r2 \<Longrightarrow>
   DecodeRune r1 r2 = 0x10000 + (r1 - 0xD800) * 0x400 + (r2 - 0xDC00) \<and>
   length (EncodeRune (DecodeRune r1 r2)) = 4"
  by (auto simp: high_surrogate_def low_surrogate_def DecodeRune_def EncodeRune_def)


lemma update_fourth: "[h1, h2, h3, h4][3 := x] = [h1, h2, h3, x]"
  by (simp add: numeral_3_eq_3)

lemmas char_simps = char_of_def bit_Suc_0_iff

text \<open>
  Claim C1, as amended.  After the fourth hexadecimal digit, with \<open>cp\<close> the 16-bit code
  unit: when no surrogate is pending, the decoder goes to the surrogate continuation
  exactly when \<open>cp\<close> is a surrogate of either half (\<open>0xD800\<close> to \<open>0xDFFF\<close>), and
  otherwise queues the UTF-8 encoding of \<open>cp\<close> (one to three bytes) and returns to the
  default step; when a surrogate is pending, a code unit that is no surrogate is the error
  "incomplete surrogate pair", and a surrogate of either half is combined with the pending
  one by \<open>utf16.DecodeRune\<close>, which for a high surrogate followed by a low one is the
  scalar value of the pair, encoded in four bytes.
\<close>

theorem unicode_fourth_digit:
  assumes "step r = Unicode" and "memoryOffset r = 3" and "memory r = [h1, h2, h3, h4]"
    and "hex_val h1 \<noteq> None" and "hex_val h2 \<noteq> None" and "hex_val h3 \<noteq> None"
    and "hex_val input \<noteq> None" and "cp = getu4 [h1, h2, h3, input]"
  shows "cp < 65536 \<and>
    (surrogate r = 0 \<and> IsSurrogate cp \<longrightarrow>
       call_step r input =
         ((CHR 0x00, False, None),
          r\<lparr>memory := [h1, h2, h3, input], memoryOffset := 4, surrogate := cp,
            step := SurrogateEscape\<rparr>)) \<and>
    (surrogate r = 0 \<and> \<not> IsSurrogate cp \<longrightarrow>
       call_step r input =
         ((CHR 0x00, False, None),
          r\<lparr>memory := EncodeRune cp @ drop (length (EncodeRune cp)) [h1, h2, h3, input],
            memoryOffset := 4, outputBuffer := EncodeRune cp, step := DefaultStep\<rparr>) \<and>
       1 \<le> length (EncodeRune cp) \<and> length (EncodeRune cp) \<le> 3) \<and>
    (surrogate r \<noteq> 0 \<and> \<not> IsSurrogate cp \<longrightarrow>
       call_step r input =
         ((CHR 0x00, False, Some (err (decoder r) IncompleteSurrogatePair)),
          r\<lparr>memory := [h1, h2, h3, input], memoryOffset := 4\<rparr>)) \<and>
    (surrogate r \<noteq> 0 \<and> IsSurrogate cp \<longrightarrow>
       call_step r input =
         ((CHR 0x00, False, None),
          r\<lparr>memory := EncodeRune (DecodeRune (surrogate r) cp) @
                      drop (length (EncodeRune (DecodeRune (surrogate r) cp))) [h1, h2, h3, input],
            memoryOffset := 4, outputBuffer := EncodeRune (DecodeRune (surrogate r) cp),
            surrogate := 0, step := DefaultStep\<rparr>)) \<and>
    (high_surrogate (surrogate r) \<and> low_surrogate cp \<longrightarrow>
       DecodeRune (surrogate r) cp = 0x10000 + (surrogate r - 0xD800) * 0x400 + (cp - 0xDC00) \<and>
       length (EncodeRune (DecodeRune (surrogate r) cp)) = 4)"
proof -
  from assms have b: "cp < 65536" by (simp add: getu4_bound)
  from assms(7) obtain v where hv: "hex_val input = Some v" by auto
  have m: "(memory r)[memoryOffset r := input] = [h1, h2, h3, input]"
    using assms(2,3) by (simp add: update_fourth)
  have u: "call_step r input =
    (let r1 = r\<lparr>memory := [h1, h2, h3, input], memoryOffset := 4\<rparr> in
     if surrogate r = 0 then
       (if IsSurrogate cp then
          ((CHR 0x00, False, None), r1\<lparr>surrogate := cp, step := SurrogateEscape\<rparr>)
        else
          ((CHR 0x00, False, None),
           r1\<lparr>memory := EncodeRune cp @ drop (length (EncodeRune cp)) [h1, h2, h3, input],
              outputBuffer := EncodeRune cp, step := DefaultStep\<rparr>))
     else
       (if \<not> IsSurrogate cp then
          ((CHR 0x00, False, Some (err (decoder r) IncompleteSurrogatePair)), r1)
        else
          ((CHR 0x00, False, None),
           r1\<lparr>memory := EncodeRune (DecodeRune (surrogate r) cp) @
                       drop (length (EncodeRune (DecodeRune (surrogate r) cp))) [h1, h2, h3, input],
              outputBuffer := EncodeRune (DecodeRune (surrogate r) cp),
              surrogate := 0, step := DefaultStep\<rparr>)))"
    using assms(1) hv m assms(2,3,8)
    by (simp add: call_step_def unicode_def not_hex_iff Let_def)
  show ?thesis
    using b EncodeRune_bmp [OF b] DecodeRune_pair [of "surrogate r" cp]
    by (auto simp: u Let_def)
qed

text \<open>The second half of \<open>\\uD834\\uDD1E\<close>: the four bytes of U+1D11E.\<close>

theorem unicode_fourth_digit_witness:
  "call_step
     \<lparr>decoder = NewDecoder [], eof = False, step = Unicode, memory = ''DD1.'', memoryOffset = 3,
      outputBuffer = [], surrogate = 0xD834\<rparr> CHR ''E''
   = ((CHR 0x00, False, None),
      \<lparr>decoder = NewDecoder [], eof = False, step = DefaultStep,
       memory = [CHR 0xF0, CHR 0x9D, CHR 0x84, CHR 0x9E], memoryOffset = 4,
       outputBuffer = [CHR 0xF0, CHR 0x9D, CHR 0x84, CHR 0x9E], surrogate = 0\<rparr>)"
proof -
  let ?r = "\<lparr>decoder = NewDecoder [], eof = False, step = Unicode, memory = ''DD1.'', memoryOffset = 3,
      outputBuffer = [], surrogate = 0xD834\<rparr>"
  have cp: "getu4 ''DD1E'' = 0xDD1E" by (simp add: getu4_def hex_val_def)
  have enc: "EncodeRune (DecodeRune 0xD834 0xDD1E) = [CHR 0xF0, CHR 0x9D, CHR 0x84, CHR 0x9E]"
    by (simp add: EncodeRune_def DecodeRune_def char_simps)
  from unicode_fourth_digit [of ?r "CHR ''D''" "CHR ''D''" "CHR ''1''" "CHR ''.''" "CHR ''E''" "0xDD1E"]
  show ?thesis
    by (simp add: hex_val_def cp enc IsSurrogate_def)
qed

text \<open>
  Against the claim as it was stated: \<open>\\uDC00\<close> is no high surrogate, and the decoder
  goes to the surrogate continuation all the same, queueing nothing; with \<open>0xD834\<close>
  pending, \<open>\\uD834\<close> is no low surrogate, and there is no error: the decoder queues
  the three bytes of U+FFFD.
\<close>

theorem unicode_surrogate_halves_counterexample:
  "\<not> high_surrogate (getu4 ''DC00'') \<and>
   call_step
     \<lparr>decoder = NewDecoder [], eof = False, step = Unicode, memory = ''DC0.'', memoryOffset = 3,
      outputBuffer = [], surrogate = 0\<rparr> CHR ''0''
   = ((CHR 0x00, False, None),
      \<lparr>decoder = NewDecoder [], eof = False, step = SurrogateEscape, memory = ''DC00'',
       memoryOffset = 4, outputBuffer = [], surrogate = 0xDC00\<rparr>) \<and>
   \<not> low_surrogate (getu4 ''D834'') \<and>
   call_step
     \<lparr>decoder = NewDecoder [], eof = False, step = Unicode, memory = ''D83.'', memoryOffset = 3,
      outputBuffer = [], surrogate = 0xD834\<rparr> CHR ''4''
   = ((CHR 0x00, False, None),
      \<lparr>decoder = NewDecoder [], eof = False, step = DefaultStep,
       memory = [CHR 0xEF, CHR 0xBF, CHR 0xBD, CHR ''4''], memoryOffset = 4,
       outputBuffer = [CHR 0xEF, CHR 0xBF, CHR 0xBD], surrogate = 0\<rparr>)"
  by (simp add: call_step_def unicode_def Let_def getu4_def hex_val_def IsSurrogate_def
      DecodeRune_def EncodeRune_def high_surrogate_def low_surrogate_def update_fourth char_simps)

subsection \<open>No function reads past a failure of the source\<close>

text \<open>
  Each function either leaves the failure \<open>e\<close> among the events of the cursor, or uses
  the events up to it and returns what it made of \<open>e\<close>.
\<close>

lemma before_Fail_neq: "before_Fail xs e evs \<Longrightarrow> xs \<noteq> evs"
proof
  assume "before_Fail xs e evs" and "xs = evs"
  then obtain bs where "evs = map Byte bs @ Fail e # evs" by (auto simp: before_Fail_def)
  then have "length evs = length (map Byte bs @ Fail e # evs)" by simp
  then show False by simp
qed

lemma before_Fail_Cons: "before_Fail xs e evs \<Longrightarrow> before_Fail (Byte b # xs) e evs"
proof -
  assume "before_Fail xs e evs"
  then obtain bs where "xs = map Byte bs @ Fail e # evs" by (auto simp: before_Fail_def)
  then have "Byte b # xs = map Byte (b # bs) @ Fail e # evs" by simp
  then show ?thesis unfolding before_Fail_def by blast
qed

lemma next_byte_frame:
  assumes "before_Fail (events d) e evs" and "next_byte d = (res, d')"
  shows "(\<exists>b. res = Inr b \<and> before_Fail (events d') e evs) \<or> (res = Inl e \<and> events d' = evs)"
proof -
  from assms(1) obtain bs where ev: "events d = map Byte bs @ Fail e # evs"
    by (auto simp: before_Fail_def)
  show ?thesis
  proof (cases bs)
    case Nil
    with ev next_byte_Fail [of d e evs] assms(2) show ?thesis by auto
  next
    case (Cons b bs')
    with ev next_byte_Byte [of d b "map Byte bs' @ Fail e # evs"] assms(2)
    show ?thesis by (auto simp: before_Fail_def)
  qed
qed

lemma next_byte_frame_Inr:
  "before_Fail (events d) e evs \<Longrightarrow> next_byte d = (Inr b, d') \<Longrightarrow> before_Fail (events d') e evs"
  by (drule (1) next_byte_frame) auto

lemma next_byte_frame_Inl:
  "before_Fail (events d) e evs \<Longrightarrow> next_byte d = (Inl x, d') \<Longrightarrow> x = e \<and> events d' = evs"
  by (drule (1) next_byte_frame) auto

lemma skipWhitespace_frame:
  "before_Fail (events d) e evs \<Longrightarrow> skipWhitespace d = (res, d') \<Longrightarrow>
   (\<exists>c. res = Inr c \<and> before_Fail (events d') e evs \<and> \<not> preparedValid d') \<or>
   (res = Inl e \<and> events d' = evs)"
proof (induction d rule: skipWhitespace.induct)
  case (1 d)
  obtain x d1 where nb: "next_byte d = (x, d1)" by (cases "next_byte d")
  show ?case
  proof (cases x)
    case (Inl a)
    with nb "1.prems" next_byte_frame_Inl [of d e evs a d1] show ?thesis
      by (subst (asm) skipWhitespace.simps) auto
  next
    case (Inr input)
    with nb have nb': "next_byte d = (Inr input, d1)" by simp
    let ?d2 = "if input = CHR 0x0A then d1\<lparr>line := line d1 + 1, column := 1\<rparr>
               else d1\<lparr>column := column d1 + 1\<rparr>"
    have ev2: "events ?d2 = events d1" by (simp add: events_def)
    have pv2: "\<not> preparedValid ?d2" using next_byte_Inr [OF nb'] by simp
    from next_byte_frame_Inr [OF "1.prems"(1) nb'] ev2
    have bf: "before_Fail (events ?d2) e evs" by simp
    show ?thesis
    proof (cases "input \<noteq> CHR '' '' \<and> input \<noteq> CHR 0x0D \<and> input \<noteq> CHR 0x0A \<and>
             input \<noteq> CHR 0x09 \<and> input \<noteq> CHR '','' \<and> input \<noteq> CHR '':''")
      case True
      with nb' "1.prems"(2) have "res = Inr input" "d' = ?d2"
        by (subst (asm) skipWhitespace.simps, simp add: Let_def)+
      with bf pv2 show ?thesis by simp
    next
      case False
      with nb' "1.prems"(2) have "skipWhitespace ?d2 = (res, d')"
        by (subst (asm) skipWhitespace.simps) (simp add: Let_def)
      from "1.IH" [OF nb' [symmetric] refl refl False bf this] show ?thesis .
    qed
  qed
qed

lemma expect_frame:
  "before_Fail (events d) e evs \<Longrightarrow> expect d cs tok = (res, d') \<Longrightarrow>
   before_Fail (events d') e evs \<or>
   (events d' = evs \<and> res = Inl (if e \<noteq> EOF then e else err d' UnexpectedEOFLiteral))"
proof (induction cs arbitrary: d)
  case Nil
  then show ?case by simp
next
  case (Cons c cs)
  obtain x d1 where nb: "next_byte d = (x, d1)" by (cases "next_byte d")
  show ?case
  proof (cases x)
    case (Inl a)
    with nb Cons.prems next_byte_frame_Inl [of d e evs a d1] show ?thesis
      by (auto split: if_splits)
  next
    case (Inr input)
    with nb have nb': "next_byte d = (Inr input, d1)" by simp
    from next_byte_frame_Inr [OF Cons.prems(1) nb'] have bf: "before_Fail (events d1) e evs" .
    show ?thesis
    proof (cases "input = c")
      case True
      with nb' Cons.prems(2) have "expect d1 cs tok = (res, d')" by simp
      from Cons.IH [OF bf this] show ?thesis .
    next
      case False
      with nb' Cons.prems(2) bf show ?thesis by auto
    qed
  qed
qed

lemma events_undo: "\<not> preparedValid d \<Longrightarrow> events (undo d c) = Byte c # events d"
  by (simp add: events_def undo_def)

lemma readNumber_loop_frame:
  "before_Fail (events d) e evs \<Longrightarrow> readNumber_loop d buf off fl = (res, d') \<Longrightarrow>
   before_Fail (events d') e evs \<or>
   (events d' = evs \<and> (if e \<noteq> EOF then res = Inl e else (\<exists>v. res = Inr v)))"
proof (induction d buf off fl rule: readNumber_loop.induct)
  case (1 d buf off isFloat)
  obtain x d1 where nb: "next_byte d = (x, d1)" by (cases "next_byte d")
  show ?case
  proof (cases x)
    case (Inl a)
    with nb "1.prems" next_byte_frame_Inl [of d e evs a d1] show ?thesis
      by (subst (asm) readNumber_loop.simps) (auto split: if_splits)
  next
    case (Inr input)
    with nb have nb': "next_byte d = (Inr input, d1)" by simp
    from next_byte_frame_Inr [OF "1.prems"(1) nb'] have bf: "before_Fail (events d1) e evs" .
    from next_byte_Inr [OF nb'] have pv: "\<not> preparedValid d1" by simp
    show ?thesis
    proof (cases "input = CHR ''.'' \<or> input = CHR ''e'' \<or> input = CHR ''E''")
      case m: True
      show ?thesis
      proof (cases "off = length buf")
        case True
        with m nb' "1.prems"(2) bf show ?thesis
          by (subst (asm) readNumber_loop.simps) auto
      next
        case False
        with m nb' "1.prems"(2)
        have "readNumber_loop d1 (buf[off := input]) (off + 1) True = (res, d')"
          by (subst (asm) readNumber_loop.simps) auto
        from "1.IH"(1) [OF nb' [symmetric] refl m False bf this] show ?thesis .
      qed
    next
      case m: False
      show ?thesis
      proof (cases "(input < CHR ''0'' \<or> input > CHR ''9'') \<and> input \<noteq> CHR ''-''")
        case True
        with m nb' "1.prems"(2) have "d' = undo d1 input"
          by (subst (asm) readNumber_loop.simps) auto
        with bf pv show ?thesis by (simp add: events_undo before_Fail_Cons)
      next
        case dg: False
        show ?thesis
        proof (cases "off = length buf")
          case True
          with m dg nb' "1.prems"(2) bf show ?thesis
            by (subst (asm) readNumber_loop.simps) auto
        next
          case False
          with m dg nb' "1.prems"(2)
          have "readNumber_loop d1 (buf[off := input]) (off + 1) isFloat = (res, d')"
            by (subst (asm) readNumber_loop.simps) auto
          from "1.IH"(2) [OF nb' [symmetric] refl m dg False bf this] show ?thesis .
        qed
      qed
    qed
  qed
qed


lemma readNumber_frame:
  assumes "before_Fail (events d) e evs" and "readNumber pf d = (res, d')"
  shows "before_Fail (events d') e evs \<or> (events d' = evs \<and> (e \<noteq> EOF \<longrightarrow> res = Inl e))"
proof -
  obtain x d1 where lp: "readNumber_loop d (replicate 64 (CHR 0x00)) 0 False = (x, d1)"
    by (cases "readNumber_loop d (replicate 64 (CHR 0x00)) 0 False")
  from lp assms(2) have d': "d' = d1"
    by (auto simp: readNumber_def split: sum.splits prod.splits if_splits)
  from readNumber_loop_frame [OF assms(1) lp]
  show ?thesis
  proof
    assume "before_Fail (events d1) e evs"
    with d' show ?thesis by simp
  next
    assume a: "events d1 = evs \<and> (if e \<noteq> EOF then x = Inl e else (\<exists>v. x = Inr v))"
    show ?thesis
    proof (cases "e = EOF")
      case True
      with a d' show ?thesis by simp
    next
      case False
      with a have "x = Inl e" by simp
      with lp assms(2) have "res = Inl e" by (simp add: readNumber_def)
      with a d' show ?thesis by simp
    qed
  qed
qed

lemma Read_loop_frame:
  "before_Fail (events (decoder r)) e evs \<Longrightarrow> Read_loop r p n = ((m, x), r', p') \<Longrightarrow>
   before_Fail (events (decoder r')) e evs \<or>
   (events (decoder r') = evs \<and> m = 0 \<and>
    x = Some (if e \<noteq> EOF then e else err (decoder r') UnexpectedEOFString))"
proof (induction r p n rule: Read_loop_induct)
  case (full r p n)
  then show ?case by (simp add: Read_loop_full)
next
  case (drain r p n)
  then show ?case by (simp add: Read_loop_drain)
next
  case (fail r p n e0 d1)
  from next_byte_frame_Inl [OF fail.prems(1) fail.hyps(3)] fail.prems(2) show ?case
    by (auto simp: Read_loop_fail [OF fail.hyps])
next
  case (step_err r p n input d1 outp ok e0 r2)
  from step_err.prems(2) have "r' = r2"
    by (simp add: Read_loop_step_err [OF step_err.hyps])
  moreover from call_step_decoder [of "r\<lparr>decoder := d1\<rparr>" input] step_err.hyps(4)
  have "decoder r2 = d1" by simp
  ultimately show ?case
    using next_byte_frame_Inr [OF step_err.prems(1) step_err.hyps(3)] by simp
next
  case (emit r p n input d1 outp r2)
  from call_step_decoder [of "r\<lparr>decoder := d1\<rparr>" input] emit.hyps(4)
  have "decoder r2 = d1" by simp
  with next_byte_frame_Inr [OF emit.prems(1) emit.hyps(3)]
  have "before_Fail (events (decoder r2)) e evs" by simp
  from emit.IH [OF this] emit.prems(2) show ?case
    by (simp add: Read_loop_emit [OF emit.hyps])
next
  case (skip r p n input d1 outp r2)
  from call_step_decoder [of "r\<lparr>decoder := d1\<rparr>" input] skip.hyps(4)
  have "decoder r2 = d1" by simp
  with next_byte_frame_Inr [OF skip.prems(1) skip.hyps(3)]
  have "before_Fail (events (decoder r2)) e evs" by simp
  from skip.IH [OF this] skip.prems(2) show ?case
    by (simp add: Read_loop_skip [OF skip.hyps])
qed

lemma Read_frame:
  "before_Fail (events (decoder r)) e evs \<Longrightarrow> Read r p = ((m, x), r', p') \<Longrightarrow>
   before_Fail (events (decoder r')) e evs \<or>
   (events (decoder r') = evs \<and> m = 0 \<and>
    x = Some (if e \<noteq> EOF then e else err (decoder r') UnexpectedEOFString))"
  by (cases "eof r") (auto simp: Read_def dest: Read_loop_frame)

lemma ReadAll_loop_frame:
  "before_Fail (events (decoder r)) e evs \<Longrightarrow> ReadAll_loop r b = (res, r') \<Longrightarrow>
   before_Fail (events (decoder r')) e evs \<or>
   (events (decoder r') = evs \<and>
    res = Inl (if e \<noteq> EOF then e else err (decoder r') UnexpectedEOFString))"
proof (induction r b rule: ReadAll_loop.induct)
  case (1 r b)
  obtain n x r1 p1 where rd: "Read r (replicate 512 (CHR 0x00)) = ((n, x), r1, p1)"
    by (metis prod_cases3 surj_pair)
  from Read_frame [OF "1.prems"(1) rd]
  have fr: "before_Fail (events (decoder r1)) e evs \<or>
   (events (decoder r1) = evs \<and> n = 0 \<and>
    x = Some (if e \<noteq> EOF then e else err (decoder r1) UnexpectedEOFString))" .
  show ?case
  proof (cases x)
    case None
    with fr have bf: "before_Fail (events (decoder r1)) e evs" by simp
    from None rd "1.prems"(2) have "ReadAll_loop r1 (b @ take n p1) = (res, r')"
      by (subst (asm) ReadAll_loop.simps) (simp add: Let_def)
    from "1.IH" [OF rd [symmetric] refl refl refl None bf this] show ?thesis .
  next
    case (Some a)
    with rd "1.prems"(2) have r': "r' = r1" and res: "res = (if a = EOF then Inr (b @ take n p1) else Inl a)"
      by (subst (asm) ReadAll_loop.simps, simp add: Let_def split: if_splits)+
    from fr show ?thesis
    proof
      assume "before_Fail (events (decoder r1)) e evs"
      with r' show ?thesis by simp
    next
      assume "events (decoder r1) = evs \<and> n = 0 \<and>
        x = Some (if e \<noteq> EOF then e else err (decoder r1) UnexpectedEOFString)"
      with Some r' res show ?thesis by (auto simp: err_def)
    qed
  qed
qed

lemma readString_frame:
  assumes "before_Fail (events d) e evs" and "readString d = (res, d')"
  shows "before_Fail (events d') e evs \<or>
   (events d' = evs \<and>
    res = Inl (UnableToReadString (if e \<noteq> EOF then e else err d' UnexpectedEOFString)))"
proof -
  obtain x r1 where ra: "ReadAll_loop (newStringReader d) [] = (x, r1)"
    by (cases "ReadAll_loop (newStringReader d) []")
  from assms(1) have "before_Fail (events (decoder (newStringReader d))) e evs"
    by (simp add: newStringReader_def)
  from ReadAll_loop_frame [OF this ra] ra assms(2) show ?thesis
    by (auto simp: readString_def ReadAll_def split: sum.splits)
qed

lemma readToken_cases [case_names delim str t f n num bad]:
  assumes "input = CHR ''{'' \<or> input = CHR ''}'' \<or> input = CHR ''['' \<or> input = CHR '']'' \<Longrightarrow>
      readToken pf d input = (Inr (TDelim input), d) \<Longrightarrow> P"
    and "input = quote \<Longrightarrow> readToken pf d input = readString d \<Longrightarrow> P"
    and "input = CHR ''t'' \<Longrightarrow> readToken pf d input = expect d ''rue'' (TBool True) \<Longrightarrow> P"
    and "input = CHR ''f'' \<Longrightarrow> readToken pf d input = expect d ''alse'' (TBool False) \<Longrightarrow> P"
    and "input = CHR ''n'' \<Longrightarrow> readToken pf d input = expect d ''ull'' TNull \<Longrightarrow> P"
    and "input = CHR ''-'' \<or> input = CHR ''.'' \<or> (CHR ''0'' \<le> input \<and> input \<le> CHR ''9'') \<Longrightarrow>
      input \<noteq> quote \<Longrightarrow> readToken pf d input = readNumber pf (undo d input) \<Longrightarrow> P"
    and "input \<noteq> quote \<Longrightarrow> readToken pf d input = (Inl (err d (BadInputByte input)), d) \<Longrightarrow> P"
  shows P
proof -
  let ?D = "input = CHR ''{'' \<or> input = CHR ''}'' \<or> input = CHR ''['' \<or> input = CHR '']''"
  let ?N = "input = CHR ''-'' \<or> input = CHR ''.'' \<or> (CHR ''0'' \<le> input \<and> input \<le> CHR ''9'')"
  show P
  proof (cases ?D)
    case True
    then show ?thesis by (intro assms(1)) (simp_all add: readToken_def)
  next
    case nD: False
    show ?thesis
    proof (cases "input = quote")
      case True
      with nD show ?thesis by (intro assms(2)) (simp_all add: readToken_def)
    next
      case nq: False
      show ?thesis
      proof (cases "input = CHR ''t''")
        case True
        with nD nq show ?thesis by (intro assms(3)) (simp_all add: readToken_def)
      next
        case nt: False
        show ?thesis
        proof (cases "input = CHR ''f''")
          case True
          with nD nq nt show ?thesis by (intro assms(4)) (simp_all add: readToken_def)
        next
          case nf: False
          show ?thesis
          proof (cases "input = CHR ''n''")
            case True
            with nD nq nt nf show ?thesis by (intro assms(5)) (simp_all add: readToken_def)
          next
            case nn: False
            show ?thesis
            proof (cases ?N)
              case True
              with nD nq nt nf nn show ?thesis
                by (intro assms(6)) (auto simp: readToken_def)
            next
              case False
              with nD nq nt nf nn show ?thesis
                by (intro assms(7)) (auto simp: readToken_def)
            qed
          qed
        qed
      qed
    qed
  qed
qed

lemma readToken_frame:
  assumes "before_Fail (events d) e evs" and "\<not> preparedValid d"
    and "readToken pf d input = (res, d')"
  shows "before_Fail (events d') e evs \<or>
   (events d' = evs \<and> (e \<noteq> EOF \<longrightarrow>
      res = Inl (if input = quote then UnableToReadString e else e)))"
proof (rule readToken_cases [where input = input and pf = pf and d = d])
  assume "readToken pf d input = (Inr (TDelim input), d)"
  with assms show ?thesis by auto
next
  assume str: "input = quote" "readToken pf d input = readString d"
  with assms(3) have "readString d = (res, d')" by simp
  from readString_frame [OF assms(1) this] str show ?thesis by auto
next
  assume t: "input = CHR ''t''" "readToken pf d input = expect d ''rue'' (TBool True)"
  with assms(3) have "expect d ''rue'' (TBool True) = (res, d')" by simp
  from expect_frame [OF assms(1) this] t show ?thesis by auto
next
  assume f: "input = CHR ''f''" "readToken pf d input = expect d ''alse'' (TBool False)"
  with assms(3) have "expect d ''alse'' (TBool False) = (res, d')" by simp
  from expect_frame [OF assms(1) this] f show ?thesis by auto
next
  assume n: "input = CHR ''n''" "readToken pf d input = expect d ''ull'' TNull"
  with assms(3) have "expect d ''ull'' TNull = (res, d')" by simp
  from expect_frame [OF assms(1) this] n show ?thesis by auto
next
  assume num: "input \<noteq> quote" "readToken pf d input = readNumber pf (undo d input)"
  with assms(3) have rn: "readNumber pf (undo d input) = (res, d')" by simp
  from assms(1,2) have "before_Fail (events (undo d input)) e evs"
    by (simp add: events_undo before_Fail_Cons)
  from readNumber_frame [OF this rn] num(1) show ?thesis by auto
next
  assume "readToken pf d input = (Inl (err d (BadInputByte input)), d)"
  with assms show ?thesis by auto
qed

lemma Token_frame:
  assumes "before_Fail (events d) e evs" and "Token pf d = (res, d')"
  shows "before_Fail (events d') e evs \<or>
   (events d' = evs \<and> (e \<noteq> EOF \<longrightarrow>
      res = Inl (if fst (skipWhitespace d) = Inr quote then UnableToReadString e else e)))"
proof -
  obtain x d1 where sk: "skipWhitespace d = (x, d1)" by (cases "skipWhitespace d")
  from skipWhitespace_frame [OF assms(1) sk]
  show ?thesis
  proof
    assume "\<exists>c. x = Inr c \<and> before_Fail (events d1) e evs \<and> \<not> preparedValid d1"
    then obtain c where c: "x = Inr c" and bf: "before_Fail (events d1) e evs"
      and pv: "\<not> preparedValid d1" by blast
    from sk c assms(2) have "readToken pf d1 c = (res, d')" by (simp add: Token_def)
    from readToken_frame [OF bf pv this] sk c show ?thesis by auto
  next
    assume "x = Inl e \<and> events d1 = evs"
    with sk assms(2) show ?thesis by (auto simp: Token_def)
  qed
qed


lemma StringReader_frame:
  assumes "before_Fail (events d) e evs" and "StringReader d = Inl (x, d')"
  shows "before_Fail (events d') e evs \<or> (events d' = evs \<and> x = e)"
proof -
  obtain y d1 where sk: "skipWhitespace d = (y, d1)" by (cases "skipWhitespace d")
  from skipWhitespace_frame [OF assms(1) sk] sk assms(2) show ?thesis
    by (auto simp: StringReader_def events_undo before_Fail_Cons split: if_splits)
qed

lemmas token_simps =
  Token_def skipWhitespace.simps readToken_def readString_def ReadAll_def ReadAll_loop.simps
  StringReader_def undo_def Let_def

text \<open>
  Claim C2, as amended.  When a read of the byte source fails with an error \<open>e\<close> other
  than \<open>io.EOF\<close>, the operation that reaches the failure returns exactly \<open>e\<close>: the
  separator skipper, the literal matcher, the number scanner, \<open>StringReader\<close>, every
  \<open>Read\<close> of a string reader and a drain of it by \<open>ReadAll\<close>.  \<open>Token\<close> returns
  \<open>e\<close> as well, except when the failure comes while it drains a string token: then
  \<open>readString\<close> returns it wrapped, as "unable to read string: e" (without a position).
\<close>

theorem source_failure_surfaces:
  assumes "events d = map Byte bs @ Fail e # evs" and "e \<noteq> EOF"
  shows
   "(skipWhitespace d = (ra, d') \<and> events d' = evs \<longrightarrow> ra = Inl e) \<and>
    (expect d cs tok = (res, d') \<and> events d' = evs \<longrightarrow> res = Inl e) \<and>
    (readNumber pf d = (res, d') \<and> events d' = evs \<longrightarrow> res = Inl e) \<and>
    (Token pf d = (res, d') \<and> events d' = evs \<longrightarrow>
       res = Inl (if fst (skipWhitespace d) = Inr quote then UnableToReadString e else e)) \<and>
    (StringReader d = Inl (x, d') \<and> events d' = evs \<longrightarrow> x = e) \<and>
    (decoder r = d \<and> Read r p = ((m, y), r', p') \<and> events (decoder r') = evs \<longrightarrow>
       m = 0 \<and> y = Some e) \<and>
    (decoder r = d \<and> ReadAll r = (rb, r') \<and> events (decoder r') = evs \<longrightarrow> rb = Inl e)"
proof -
  from assms(1) have bf: "before_Fail (events d) e evs" unfolding before_Fail_def by blast
  have neq: "\<And>d'. events d' = evs \<Longrightarrow> \<not> before_Fail (events d') e evs"
    using before_Fail_neq by blast
  have 1: "skipWhitespace d = (ra, d') \<and> events d' = evs \<longrightarrow> ra = Inl e"
    using skipWhitespace_frame [OF bf, of ra d'] neq by auto
  have 2: "expect d cs tok = (res, d') \<and> events d' = evs \<longrightarrow> res = Inl e"
    using expect_frame [OF bf, of cs tok res d'] neq assms(2) by auto
  have 3: "readNumber pf d = (res, d') \<and> events d' = evs \<longrightarrow> res = Inl e"
    using readNumber_frame [OF bf, of pf res d'] neq assms(2) by auto
  have 4: "Token pf d = (res, d') \<and> events d' = evs \<longrightarrow>
       res = Inl (if fst (skipWhitespace d) = Inr quote then UnableToReadString e else e)"
    using Token_frame [OF bf, of pf res d'] neq assms(2) by auto
  have 5: "StringReader d = Inl (x, d') \<and> events d' = evs \<longrightarrow> x = e"
    using StringReader_frame [OF bf, of x d'] neq by auto
  have 6: "decoder r = d \<and> Read r p = ((m, y), r', p') \<and> events (decoder r') = evs \<longrightarrow>
       m = 0 \<and> y = Some e"
    using Read_frame [of r e evs p m y r' p'] bf neq assms(2) by auto
  have 7: "decoder r = d \<and> ReadAll r = (rb, r') \<and> events (decoder r') = evs \<longrightarrow> rb = Inl e"
    using ReadAll_loop_frame [of r e evs "[]" rb r'] bf neq assms(2) by (auto simp: ReadAll_def)
  from 1 2 3 4 5 6 7 show ?thesis by blast
qed

text \<open>
  The test with the \<open>badReader\<close>: \<open>StringReader\<close> takes the quote, and the drain by
  \<open>ReadAll\<close> returns \<open>errRandomIOError\<close> itself.
\<close>

theorem source_failure_surfaces_witness:
  "StringReader (NewDecoder [([quote], None), (''f'', None), (''o'', None), (''o'', None),
        ([], Some (IOError ''random IO error''))])
     = Inr (newStringReader
         \<lparr>source = [(''f'', None), (''o'', None), (''o'', None),
                     ([], Some (IOError ''random IO error''))],
          d_eof = False, line = 1, column = 2, buffer = [quote], offset = 1,
          preparedByte = CHR 0x00, preparedValid = False\<rparr>) \<and>
   fst (ReadAll (newStringReader
         \<lparr>source = [(''f'', None), (''o'', None), (''o'', None),
                     ([], Some (IOError ''random IO error''))],
          d_eof = False, line = 1, column = 2, buffer = [quote], offset = 1,
          preparedByte = CHR 0x00, preparedValid = False\<rparr>))
     = Inl (IOError ''random IO error'')"
proof -
  let ?d = "\<lparr>source = [(''f'', None), (''o'', None), (''o'', None),
                     ([], Some (IOError ''random IO error''))],
          d_eof = False, line = 1, column = 2, buffer = [quote], offset = 1,
          preparedByte = CHR 0x00, preparedValid = False\<rparr>"
  let ?r = "newStringReader ?d"
  have sr: "StringReader (NewDecoder [([quote], None), (''f'', None), (''o'', None), (''o'', None),
        ([], Some (IOError ''random IO error''))]) = Inr ?r"
    by (simp add: run_simps token_simps)
  have ev: "events ?d = map Byte ''foo'' @ Fail (IOError ''random IO error'') # []"
    by (simp add: events_def bufferSize_def)
  have ev': "events (decoder (snd (ReadAll ?r))) = []"
    by (simp add: run_simps token_simps)
  have ne: "IOError ''random IO error'' \<noteq> EOF" by simp
  have ra: "ReadAll ?r = (fst (ReadAll ?r), snd (ReadAll ?r))" by simp
  note source_failure_surfaces
         [where r = ?r and rb = "fst (ReadAll ?r)" and r' = "snd (ReadAll ?r)", OF ev ne,
          THEN conjunct2, THEN conjunct2, THEN conjunct2, THEN conjunct2, THEN conjunct2,
          THEN conjunct2]
  with ra ev' have "fst (ReadAll ?r) = Inl (IOError ''random IO error'')"
    by (simp add: newStringReader_def)
  with sr show ?thesis by simp
qed

text \<open>
  Against the claim as it was stated: \<open>Token\<close> on the same source returns the error
  wrapped by \<open>readString\<close>, not the error of the source.
\<close>

theorem Token_wraps_source_failure_counterexample:
  "fst (Token (\<lambda>s. Inl ErrSyntax :: num_err + unit)
     (NewDecoder [([quote], None), (''f'', None), (''o'', None), (''o'', None),
        ([], Some (IOError ''random IO error''))]))
   = Inl (UnableToReadString (IOError ''random IO error''))"
  by (simp add: run_simps token_simps)

subsection \<open>What the skipper, the literal matcher and the number scanner do on given bytes\<close>

lemma events_line_update [simp]: "events (d\<lparr>line := l\<rparr>) = events d"
  by (simp add: events_def)

lemma events_column_update [simp]: "events (d\<lparr>column := c\<rparr>) = events d"
  by (simp add: events_def)

lemma next_byte_at_end:
  assumes "at_end (events d)"
  shows "\<exists>d'. next_byte d = (Inl EOF, d') \<and> events d' = tl (events d) \<and>
              line d' = line d \<and> column d' = column d"
proof (cases "events d")
  case Nil
  with next_byte_Nil [of d] show ?thesis by simp
next
  case (Cons ev evs)
  with assms have "events d = Fail EOF # evs" by (auto simp: at_end_def)
  from next_byte_Fail [OF this] Cons show ?thesis by auto
qed

lemma skipWhitespace_sep:
  assumes "events d = Byte b # evs" and "is_separator b"
  shows "\<exists>d1. skipWhitespace d = skipWhitespace d1 \<and> events d1 = evs \<and>
     (line d1, column d1) = advance [b] (line d, column d)"
proof -
  from next_byte_Byte [OF assms(1)] obtain d1 where nb: "next_byte d = (Inr b, d1)"
    and d1: "events d1 = evs" "line d1 = line d" "column d1 = column d" by blast
  let ?d2 = "if b = CHR 0x0A then d1\<lparr>line := line d1 + 1, column := 1\<rparr>
             else d1\<lparr>column := column d1 + 1\<rparr>"
  have "skipWhitespace d = skipWhitespace ?d2"
    using nb assms(2) by (subst skipWhitespace.simps) (auto simp: is_separator_def Let_def)
  moreover have "events ?d2 = evs" using d1 by simp
  moreover have "(line ?d2, column ?d2) = advance [b] (line d, column d)" using d1 by simp
  ultimately show ?thesis by blast
qed

lemma skipWhitespace_byte:
  assumes "events d = Byte c # evs" and "\<not> is_separator c"
  shows "\<exists>d'. skipWhitespace d = (Inr c, d') \<and> events d' = evs \<and> \<not> preparedValid d' \<and>
     (line d', column d') = advance [c] (line d, column d)"
proof -
  from next_byte_Byte [OF assms(1)] obtain d1 where nb: "next_byte d = (Inr c, d1)"
    and d1: "events d1 = evs" "\<not> preparedValid d1" "line d1 = line d" "column d1 = column d"
    by blast
  let ?d2 = "if c = CHR 0x0A then d1\<lparr>line := line d1 + 1, column := 1\<rparr>
             else d1\<lparr>column := column d1 + 1\<rparr>"
  have "skipWhitespace d = (Inr c, ?d2)"
    using nb assms(2) by (subst skipWhitespace.simps) (auto simp: is_separator_def Let_def)
  moreover have "events ?d2 = evs" using d1 by simp
  moreover have "(line ?d2, column ?d2) = advance [c] (line d, column d)" using d1 by simp
  moreover have "\<not> preparedValid ?d2" using d1 by simp
  ultimately show ?thesis by blast
qed

lemma advance_append: "advance (xs @ ys) lc = advance ys (advance xs lc)"
  by (induction xs lc rule: advance.induct) auto

lemma skipWhitespace_run:
  assumes "\<forall>b\<in>set seps. is_separator b" and "\<not> is_separator c"
    and "events d = map Byte seps @ Byte c # evs"
  shows "\<exists>d'. skipWhitespace d = (Inr c, d') \<and> events d' = evs \<and> \<not> preparedValid d' \<and>
     (line d', column d') = advance (seps @ [c]) (line d, column d)"
  using assms
proof (induction seps arbitrary: d)
  case Nil
  with skipWhitespace_byte [of d c evs] show ?case by simp
next
  case (Cons b seps)
  from Cons.prems have ev: "events d = Byte b # (map Byte seps @ Byte c # evs)" and b: "is_separator b"
    by simp_all
  from skipWhitespace_sep [OF ev b] obtain d1 where d1: "skipWhitespace d = skipWhitespace d1"
    "events d1 = map Byte seps @ Byte c # evs" "(line d1, column d1) = advance [b] (line d, column d)"
    by blast
  from Cons.IH [OF _ Cons.prems(2) d1(2)] Cons.prems(1)
  obtain d' where d': "skipWhitespace d1 = (Inr c, d')" "events d' = evs" "\<not> preparedValid d'"
     "(line d', column d') = advance (seps @ [c]) (line d1, column d1)" by auto
  from d1(3) have "advance (seps @ [c]) (line d1, column d1) =
      advance ((b # seps) @ [c]) (line d, column d)" by simp
  with d' d1(1) show ?case by simp
qed

lemma skipWhitespace_end:
  assumes "\<forall>b\<in>set seps. is_separator b" and "at_end evs"
    and "events d = map Byte seps @ evs"
  shows "\<exists>d'. skipWhitespace d = (Inl EOF, d') \<and> events d' = tl evs \<and>
     (line d', column d') = advance seps (line d, column d)"
  using assms
proof (induction seps arbitrary: d)
  case Nil
  then have "at_end (events d)" by simp
  from next_byte_at_end [OF this] Nil.prems(3) show ?case
    by (subst skipWhitespace.simps) auto
next
  case (Cons b seps)
  from Cons.prems have ev: "events d = Byte b # (map Byte seps @ evs)" and b: "is_separator b"
    by simp_all
  from skipWhitespace_sep [OF ev b] obtain d1 where d1: "skipWhitespace d = skipWhitespace d1"
    "events d1 = map Byte seps @ evs" "(line d1, column d1) = advance [b] (line d, column d)"
    by blast
  from Cons.IH [OF _ Cons.prems(2) d1(2)] Cons.prems(1)
  obtain d' where d': "skipWhitespace d1 = (Inl EOF, d')" "events d' = tl evs"
     "(line d', column d') = advance seps (line d1, column d1)" by auto
  from d1(3) have "advance seps (line d1, column d1) = advance (b # seps) (line d, column d)"
    by simp
  with d' d1(1) show ?case by simp
qed

lemma expect_run:
  assumes "events d = map Byte cs @ evs"
  shows "\<exists>d'. expect d cs tok = (Inr tok, d') \<and> events d' = evs \<and>
     line d' = line d \<and> column d' = column d \<and> (cs \<noteq> [] \<longrightarrow> \<not> preparedValid d')"
  using assms
proof (induction cs arbitrary: d)
  case Nil
  then show ?case by simp
next
  case (Cons c cs)
  then have "events d = Byte c # (map Byte cs @ evs)" by simp
  from next_byte_Byte [OF this] obtain d1 where nb: "next_byte d = (Inr c, d1)"
    and d1: "events d1 = map Byte cs @ evs" "\<not> preparedValid d1" "line d1 = line d"
      "column d1 = column d" by blast
  from Cons.IH [OF d1(1)] obtain d' where "expect d1 cs tok = (Inr tok, d')" "events d' = evs"
    "line d' = line d1" "column d' = column d1" "cs \<noteq> [] \<longrightarrow> \<not> preparedValid d'" by blast
  with nb d1 show ?case by (cases cs) auto
qed

lemma expect_end:
  assumes "events d = map Byte pre @ evs" and "at_end evs"
  shows "\<exists>d'. expect d (pre @ c # cs) tok =
           (Inl (ScanError (line d) (column d) UnexpectedEOFLiteral), d') \<and> events d' = tl evs"
  using assms
proof (induction pre arbitrary: d)
  case Nil
  then have "at_end (events d)" by simp
  from next_byte_at_end [OF this] Nil show ?case by (auto simp: err_def)
next
  case (Cons b pre)
  then have "events d = Byte b # (map Byte pre @ evs)" by simp
  from next_byte_Byte [OF this] obtain d1 where nb: "next_byte d = (Inr b, d1)"
    and d1: "events d1 = map Byte pre @ evs" "line d1 = line d" "column d1 = column d" by blast
  from Cons.IH [OF d1(1) Cons.prems(2)] nb d1 show ?case by auto
qed


lemma take_Suc_update:
  "off < length buf \<Longrightarrow> take (Suc off) (buf[off := c]) = take off buf @ [c]"
  by (simp add: take_Suc_conv_app_nth)

lemma not_number_byte_break:
  "\<not> is_number_byte c \<Longrightarrow>
   \<not> (c = CHR ''.'' \<or> c = CHR ''e'' \<or> c = CHR ''E'') \<and>
   ((c < CHR ''0'' \<or> c > CHR ''9'') \<and> c \<noteq> CHR ''-'')"
  by (auto simp: is_number_byte_def is_float_marker_def)

lemma number_byte_cases:
  "is_number_byte c \<Longrightarrow>
   (c = CHR ''.'' \<or> c = CHR ''e'' \<or> c = CHR ''E'') = is_float_marker c \<and>
   (is_float_marker c \<or> \<not> ((c < CHR ''0'' \<or> c > CHR ''9'') \<and> c \<noteq> CHR ''-''))"
  by (auto simp: is_number_byte_def is_float_marker_def)

lemma readNumber_loop_stop:
  assumes "number_stop (events d)"
  shows "\<exists>d'. readNumber_loop d buf off fl = (Inr (buf, off, fl), d') \<and>
     events d' = after_stop (events d) \<and> line d' = line d \<and> column d' = column d"
proof (cases "events d")
  case Nil
  with next_byte_Nil [of d] show ?thesis
    by (subst readNumber_loop.simps) simp
next
  case (Cons ev evs)
  show ?thesis
  proof (cases ev)
    case (Byte c)
    with Cons assms have nn: "\<not> is_number_byte c" by simp
    from Cons Byte have "events d = Byte c # evs" by simp
    from next_byte_Byte [OF this] obtain d1 where nb: "next_byte d = (Inr c, d1)"
      and d1: "events d1 = evs" "\<not> preparedValid d1" "line d1 = line d" "column d1 = column d"
      by blast
    have "readNumber_loop d buf off fl = (Inr (buf, off, fl), undo d1 c)"
      using nb not_number_byte_break [OF nn] by (subst readNumber_loop.simps) simp
    moreover have "events (undo d1 c) = after_stop (events d)"
      using Cons Byte d1 by (simp add: events_undo)
    moreover have "line (undo d1 c) = line d" "column (undo d1 c) = column d"
      using d1 by (simp_all add: undo_def)
    ultimately show ?thesis by blast
  next
    case (Fail e)
    with Cons assms have "events d = Fail EOF # evs" by simp
    from next_byte_Fail [OF this] Cons Fail show ?thesis
      by (subst readNumber_loop.simps) auto
  qed
qed

lemma readNumber_loop_run:
  assumes "\<forall>c\<in>set run. is_number_byte c" and "number_stop evs"
    and "off + length run \<le> length buf" and "events d = map Byte run @ evs"
  shows "\<exists>d' buf'. readNumber_loop d buf off fl =
           (Inr (buf', off + length run, fl \<or> (\<exists>c\<in>set run. is_float_marker c)), d') \<and>
     take (off + length run) buf' = take off buf @ run \<and>
     events d' = after_stop evs \<and> line d' = line d \<and> column d' = column d"
  using assms
proof (induction run arbitrary: d buf "off" fl)
  case Nil
  then have "number_stop (events d)" by simp
  from readNumber_loop_stop [OF this, of buf "off" fl] Nil show ?case by auto
next
  case (Cons c run)
  from Cons.prems have c: "is_number_byte c" and off: "off < length buf"
    and ev: "events d = Byte c # (map Byte run @ evs)" by simp_all
  from next_byte_Byte [OF ev] obtain d1 where nb: "next_byte d = (Inr c, d1)"
    and d1: "events d1 = map Byte run @ evs" "line d1 = line d" "column d1 = column d"
    by blast
  have step: "readNumber_loop d buf off fl =
      readNumber_loop d1 (buf[off := c]) (off + 1) (fl \<or> is_float_marker c)"
    using nb off number_byte_cases [OF c]
    by (subst readNumber_loop.simps) auto
  from Cons.prems have "\<forall>c\<in>set run. is_number_byte c" and "(off + 1) + length run \<le> length (buf[off := c])"
    by simp_all
  from Cons.IH [OF this(1) Cons.prems(2) this(2) d1(1), of "fl \<or> is_float_marker c"]
  obtain d' buf' where r: "readNumber_loop d1 (buf[off := c]) (off + 1) (fl \<or> is_float_marker c) =
      (Inr (buf', off + 1 + length run,
            (fl \<or> is_float_marker c) \<or> (\<exists>c\<in>set run. is_float_marker c)), d')"
    "take (off + 1 + length run) buf' = take (off + 1) (buf[off := c]) @ run"
    "events d' = after_stop evs" "line d' = line d1" "column d' = column d1" by blast
  from r(2) off have "take (off + length (c # run)) buf' = take off buf @ c # run"
    by (simp add: take_Suc_update)
  moreover have "((fl \<or> is_float_marker c) \<or> (\<exists>c\<in>set run. is_float_marker c)) =
     (fl \<or> (\<exists>x\<in>set (c # run). is_float_marker x))" by auto
  ultimately show ?case using step r d1 by (auto simp del: set_simps(2))
qed

lemma readNumber_loop_too_long:
  assumes "\<forall>c\<in>set run. is_number_byte c" and "off + length run = Suc (length buf)"
    and "off \<le> length buf" and "events d = map Byte run @ evs"
  shows "\<exists>d'. readNumber_loop d buf off fl =
           (Inl (ScanError (line d) (column d) NumberTooLong), d')"
  using assms
proof (induction run arbitrary: d buf "off" fl)
  case Nil
  then show ?case by simp
next
  case (Cons c run)
  from Cons.prems have c: "is_number_byte c"
    and ev: "events d = Byte c # (map Byte run @ evs)" by simp_all
  from next_byte_Byte [OF ev] obtain d1 where nb: "next_byte d = (Inr c, d1)"
    and d1: "events d1 = map Byte run @ evs" "line d1 = line d" "column d1 = column d"
    by blast
  show ?case
  proof (cases "off = length buf")
    case True
    with nb number_byte_cases [OF c] d1 show ?thesis
      by (subst readNumber_loop.simps) (auto simp: err_def)
  next
    case False
    then have step: "readNumber_loop d buf off fl =
      readNumber_loop d1 (buf[off := c]) (off + 1) (fl \<or> is_float_marker c)"
      using nb number_byte_cases [OF c]
      by (subst readNumber_loop.simps) auto
    from Cons.prems False have "\<forall>c\<in>set run. is_number_byte c"
      and "(off + 1) + length run = Suc (length (buf[off := c]))"
      and "off + 1 \<le> length (buf[off := c])" by simp_all
    from Cons.IH [OF this d1(1)] step d1 show ?thesis by auto
  qed
qed

lemma readNumber_run:
  assumes "\<forall>c\<in>set run. is_number_byte c" and "number_stop evs"
    and "length run \<le> 64" and "events d = map Byte run @ evs"
  shows "\<exists>d'. readNumber pf d = (convert_number pf run (line d) (column d), d') \<and>
     events d' = after_stop evs \<and> line d' = line d \<and> column d' = column d"
proof -
  from assms(3) have "0 + length run \<le> length (replicate 64 (CHR 0x00))" by simp
  from readNumber_loop_run [OF assms(1,2) this assms(4), of False]
  obtain d' buf' where r: "readNumber_loop d (replicate 64 (CHR 0x00)) 0 False =
           (Inr (buf', length run, \<exists>c\<in>set run. is_float_marker c), d')"
     "take (length run) buf' = run"
     "events d' = after_stop evs" "line d' = line d" "column d' = column d" by auto
  then show ?thesis
    by (auto simp: readNumber_def convert_number_def err_def split: sum.splits)
qed

lemma readNumber_too_long:
  assumes "\<forall>c\<in>set run. is_number_byte c" and "length run = 65"
    and "events d = map Byte run @ evs"
  shows "\<exists>d'. readNumber pf d = (Inl (ScanError (line d) (column d) NumberTooLong), d')"
proof -
  from assms(2) have "0 + length run = Suc (length (replicate 64 (CHR 0x00)))" by simp
  from readNumber_loop_too_long [OF assms(1) this _ assms(3), of False]
  show ?thesis by (auto simp: readNumber_def)
qed

subsection \<open>Number tokens\<close>

lemma number_start_not_separator: "number_start c \<Longrightarrow> \<not> is_separator c"
  by (auto simp: number_start_def is_separator_def)

lemma number_start_neq:
  assumes "number_start c"
  shows "c \<noteq> CHR ''{''" "c \<noteq> CHR ''}''" "c \<noteq> CHR ''[''" "c \<noteq> CHR '']''" "c \<noteq> quote"
    "c \<noteq> CHR ''t''" "c \<noteq> CHR ''f''" "c \<noteq> CHR ''n''"
  using assms unfolding number_start_def by fastforce+

lemma number_start_readToken:
  assumes "number_start c"
  shows "readToken pf d c = readNumber pf (undo d c)"
proof -
  from assms have "c = CHR ''-'' \<or> c = CHR ''.'' \<or> (CHR ''0'' \<le> c \<and> c \<le> CHR ''9'')"
    by (simp add: number_start_def)
  with number_start_neq [OF assms] show ?thesis
    by (simp add: readToken_def)
qed

lemma Token_number_run:
  assumes "\<forall>b\<in>set seps. is_separator b" and "run \<noteq> []" and "number_start (hd run)"
    and "\<forall>b\<in>set run. is_number_byte b" and "number_stop evs" and "length run \<le> 64"
    and "events d = map Byte (seps @ run) @ evs"
    and "(l, c) = advance (seps @ [hd run]) (line d, column d)"
  shows "\<exists>d'. Token pf d = (convert_number pf run l c, d') \<and> events d' = after_stop evs \<and>
     line d' = l \<and> column d' = c"
proof -
  from assms(2) obtain b bs where run: "run = b # bs" by (cases run) auto
  with assms(3) have b: "number_start b" by simp
  from assms(7) run have "events d = map Byte seps @ Byte b # (map Byte bs @ evs)" by simp
  from skipWhitespace_run [OF assms(1) number_start_not_separator [OF b] this]
  obtain d1 where sk: "skipWhitespace d = (Inr b, d1)" and d1: "events d1 = map Byte bs @ evs"
    "\<not> preparedValid d1" "(line d1, column d1) = advance (seps @ [b]) (line d, column d)"
    by blast
  from d1 run have ev: "events (undo d1 b) = map Byte run @ evs" by (simp add: events_undo)
  from readNumber_run [OF assms(4,5,6) ev, of pf]
  obtain d' where "readNumber pf (undo d1 b) =
      (convert_number pf run (line (undo d1 b)) (column (undo d1 b)), d')"
    "events d' = after_stop evs" "line d' = line (undo d1 b)" "column d' = column (undo d1 b)"
    by blast
  moreover have "line (undo d1 b) = l" "column (undo d1 b) = c"
    using d1(3) assms(8) run by (simp_all add: undo_def) (metis fst_conv, metis snd_conv)
  ultimately show ?thesis
    using sk by (simp add: Token_def number_start_readToken [OF b])
qed

lemma Token_number_too_long:
  assumes "\<forall>b\<in>set seps. is_separator b" and "number_start (hd run)"
    and "\<forall>b\<in>set run. is_number_byte b" and "64 < length run"
    and "events d = map Byte (seps @ run) @ evs"
    and "(l, c) = advance (seps @ [hd run]) (line d, column d)"
  shows "\<exists>d'. Token pf d = (Inl (ScanError l c NumberTooLong), d')"
proof -
  from assms(4) obtain b bs where run: "run = b # bs" by (cases run) auto
  with assms(2) have b: "number_start b" by simp
  from assms(5) run have "events d = map Byte seps @ Byte b # (map Byte bs @ evs)" by simp
  from skipWhitespace_run [OF assms(1) number_start_not_separator [OF b] this]
  obtain d1 where sk: "skipWhitespace d = (Inr b, d1)" and d1: "events d1 = map Byte bs @ evs"
    "\<not> preparedValid d1" "(line d1, column d1) = advance (seps @ [b]) (line d, column d)"
    by blast
  from d1 run have "events (undo d1 b) = map Byte run @ evs" by (simp add: events_undo)
  then have ev: "events (undo d1 b) = map Byte (take 65 run) @ (map Byte (drop 65 run) @ evs)"
    by (simp flip: map_append)
  have "\<forall>b\<in>set (take 65 run). is_number_byte b" using assms(3) by (auto dest: in_set_takeD)
  moreover have "length (take 65 run) = 65" using assms(4) by simp
  ultimately obtain d' where "readNumber pf (undo d1 b) =
      (Inl (ScanError (line (undo d1 b)) (column (undo d1 b)) NumberTooLong), d')"
    using readNumber_too_long [OF _ _ ev, of pf] by blast
  moreover have "line (undo d1 b) = l" "column (undo d1 b) = c"
    using d1(3) assms(6) run by (simp_all add: undo_def) (metis fst_conv, metis snd_conv)
  ultimately show ?thesis
    using sk by (simp add: Token_def number_start_readToken [OF b])
qed

lemma foldl_digits_mono: "n \<le> foldl (\<lambda>n c. n * 10 + digit_val c) n cs"
proof (induction cs arbitrary: n)
  case Nil
  show ?case by simp
next
  case (Cons c cs)
  have "n \<le> n * 10 + digit_val c" by simp
  also have "\<dots> \<le> foldl (\<lambda>n c. n * 10 + digit_val c) (n * 10 + digit_val c) cs" by (rule Cons.IH)
  finally show ?case by simp
qed

lemma ParseUint_loop_digits:
  "\<forall>c\<in>set cs. is_digit c \<Longrightarrow>
   ParseUint_loop cs n =
     (if foldl (\<lambda>n c. n * 10 + digit_val c) n cs < 2 ^ 64 \<or> cs = []
      then Inr (foldl (\<lambda>n c. n * 10 + digit_val c) n cs) else Inl ErrRange)"
proof (induction cs arbitrary: n)
  case Nil
  show ?case by simp
next
  case (Cons c cs)
  let ?f = "\<lambda>n c. n * 10 + digit_val c"
  from Cons.prems have c: "is_digit c" and cs: "\<forall>c\<in>set cs. is_digit c" by simp_all
  show ?case
  proof (cases "(2::nat) ^ 64 \<le> n * 10 + digit_val c")
    case True
    with foldl_digits_mono [of "n * 10 + digit_val c" cs]
    have "\<not> foldl ?f (n * 10 + digit_val c) cs < 2 ^ 64" by linarith
    with True c show ?thesis by auto
  next
    case False
    then have "\<not> (2::nat) ^ 64 \<le> n * 10" by linarith
    with False c Cons.IH [OF cs, of "n * 10 + digit_val c"] show ?thesis
      by (cases cs) (auto split: if_splits)
  qed
qed

lemma ParseUint_digits:
  assumes "cs \<noteq> []" and "\<forall>c\<in>set cs. is_digit c"
  shows "ParseUint cs = (if digits_value cs < 2 ^ 64 then Inr (digits_value cs) else Inl ErrRange)"
  using assms ParseUint_loop_digits [OF assms(2), of 0]
  by (simp add: ParseUint_def digits_value_def)

lemma ParseInt_decimal:
  assumes "decimal_value s = Some v"
  shows "ParseInt s = (if - (2 ^ 63) \<le> v \<and> v < 2 ^ 63 then Inr v else Inl ErrRange)"
proof -
  let ?signed = "s \<noteq> [] \<and> (hd s = CHR ''+'' \<or> hd s = CHR ''-'')"
  let ?digits = "if ?signed then tl s else s"
  from assms have dg: "?digits \<noteq> []" "\<forall>c\<in>set ?digits. is_digit c"
    and v: "v = (if s \<noteq> [] \<and> hd s = CHR ''-'' then - int (digits_value ?digits)
                 else int (digits_value ?digits))"
    by (auto simp: decimal_value_def Let_def split: if_splits)
  from dg have s: "s \<noteq> []" by (auto split: if_splits)
  have pu: "ParseUint ?digits =
      (if digits_value ?digits < 2 ^ 64 then Inr (digits_value ?digits) else Inl ErrRange)"
    by (rule ParseUint_digits [OF dg])
  show ?thesis
  proof (cases "hd s = CHR ''-''")
    case True
    with s pu v show ?thesis
      by (auto simp: ParseInt_def Let_def)
  next
    case False
    with s pu v show ?thesis
      by (auto simp: ParseInt_def Let_def)
  qed
qed


lemma events_NewDecoder:
  "bs \<noteq> [] \<Longrightarrow> length bs \<le> bufferSize \<Longrightarrow> events (NewDecoder [(bs, None)]) = map Byte bs"
  by (simp add: events_def NewDecoder_def)

lemma NewDecoder_position: "line (NewDecoder s) = 1" "column (NewDecoder s) = 1"
  by (simp_all add: NewDecoder_def)

text \<open>
  Claim C3.  The bytes \<open>run\<close> are a run of number bytes after separators, with the
  token's position \<open>l\<close>, \<open>c\<close>.  When the run is exactly 64 bytes long and ends there
  (at a byte that is no number byte, or at the end of the input), \<open>Token\<close> returns what
  the conversion of all 64 bytes returns, which is never the error "number is too long";
  when the run has 65 bytes or more, \<open>Token\<close> returns the error "number is too long"
  with the position, whatever the bytes are.
\<close>

theorem number_scratch_capacity:
  assumes "\<forall>b\<in>set seps. is_separator b" and "run \<noteq> []" and "number_start (hd run)"
    and "\<forall>b\<in>set run. is_number_byte b"
    and "events d = map Byte (seps @ run) @ evs"
    and "(l, c) = advance (seps @ [hd run]) (line d, column d)"
  shows "(length run = 64 \<and> number_stop evs \<longrightarrow>
           fst (Token pf d) = convert_number pf run l c \<and>
           fst (Token pf d) \<noteq> Inl (ScanError l c NumberTooLong)) \<and>
         (65 \<le> length run \<longrightarrow> fst (Token pf d) = Inl (ScanError l c NumberTooLong))"
proof (rule conjI; rule impI)
  assume a: "length run = 64 \<and> number_stop evs"
  then have "length run \<le> 64" and "number_stop evs" by simp_all
  from Token_number_run [OF assms(1,2,3,4) this(2,1) assms(5,6), of pf]
  have "fst (Token pf d) = convert_number pf run l c" by auto
  moreover have "convert_number pf run l c \<noteq> Inl (ScanError l c NumberTooLong)"
    by (simp add: convert_number_def split: sum.split)
  ultimately show "fst (Token pf d) = convert_number pf run l c \<and>
           fst (Token pf d) \<noteq> Inl (ScanError l c NumberTooLong)" by simp
next
  assume "65 \<le> length run"
  then have "64 < length run" by simp
  from Token_number_too_long [OF assms(1,3,4) this assms(5,6), of pf]
  show "fst (Token pf d) = Inl (ScanError l c NumberTooLong)" by auto
qed

lemmas number_simps =
  is_separator_def is_number_byte_def is_float_marker_def number_start_def convert_number_def
  ParseInt_def ParseUint_def is_digit_def digit_val_def bufferSize_def NewDecoder_position

text \<open>
  Sixty-three zeros and a 7 are the integer 7; sixty-five nines (the test has a hundred)
  are too long.
\<close>

theorem number_scratch_capacity_witness:
  "fst (Token (\<lambda>s. Inl ErrSyntax :: num_err + unit)
     (NewDecoder [(''0000000000000000000000000000000000000000000000000000000000000007'', None)])) = Inr (TInt 7) \<and>
   fst (Token (\<lambda>s. Inl ErrSyntax :: num_err + unit)
     (NewDecoder [(''99999999999999999999999999999999999999999999999999999999999999999'', None)])) = Inl (ScanError 1 2 NumberTooLong)"
proof -
  let ?pf = "\<lambda>s. Inl ErrSyntax :: num_err + unit"
  let ?a = "''0000000000000000000000000000000000000000000000000000000000000007''"
  let ?b = "''99999999999999999999999999999999999999999999999999999999999999999''"
  have a: "\<forall>b\<in>set []. is_separator b" "?a \<noteq> []" "number_start (hd ?a)"
    "\<forall>b\<in>set ?a. is_number_byte b"
    "events (NewDecoder [(?a, None)]) = map Byte ([] @ ?a) @ []"
    "(1, 2) = advance ([] @ [hd ?a]) (line (NewDecoder [(?a, None)]), column (NewDecoder [(?a, None)]))"
    "length ?a = 64 \<and> number_stop []"
    by (simp_all add: number_simps events_NewDecoder)
  have ca: "convert_number ?pf ?a 1 2 = Inr (TInt 7)"
    by (simp add: number_simps)
  have b: "\<forall>b\<in>set []. is_separator b" "?b \<noteq> []" "number_start (hd ?b)"
    "\<forall>b\<in>set ?b. is_number_byte b"
    "events (NewDecoder [(?b, None)]) = map Byte ([] @ ?b) @ []"
    "(1, 2) = advance ([] @ [hd ?b]) (line (NewDecoder [(?b, None)]), column (NewDecoder [(?b, None)]))"
    "65 \<le> length ?b"
    by (simp_all add: number_simps events_NewDecoder)
  from number_scratch_capacity [OF a(1-6), of ?pf] a(7) ca
  have "fst (Token ?pf (NewDecoder [(?a, None)])) = Inr (TInt 7)" by simp
  moreover from number_scratch_capacity [OF b(1-6), of ?pf] b(7)
  have "fst (Token ?pf (NewDecoder [(?b, None)])) = Inl (ScanError 1 2 NumberTooLong)" by blast
  ultimately show ?thesis by simp
qed

text \<open>
  Claim C5.  For a scanned run of at most 64 bytes, the token is what
  \<open>strconv.ParseFloat\<close> returns if a \<open>.\<close>, \<open>e\<close> or \<open>E\<close> is among the bytes, and what
  \<open>strconv.ParseInt\<close> (base 10, 64 bits) returns if none is; an error of either
  conversion is returned with the position.  On a decimal integer literal \<open>ParseInt\<close>
  returns its value when that lies in the range of \<open>int64\<close>, and the error
  \<open>ErrRange\<close> otherwise.
\<close>

theorem number_kind_by_marker:
  assumes "\<forall>b\<in>set seps. is_separator b" and "run \<noteq> []" and "number_start (hd run)"
    and "\<forall>b\<in>set run. is_number_byte b" and "number_stop evs" and "length run \<le> 64"
    and "events d = map Byte (seps @ run) @ evs"
    and "(l, c) = advance (seps @ [hd run]) (line d, column d)"
  shows "fst (Token pf d) =
           (if \<exists>b\<in>set run. b = CHR ''.'' \<or> b = CHR ''e'' \<or> b = CHR ''E'' then
              (case pf run of
                 Inl e \<Rightarrow> Inl (ScanError l c (FailedScanFloat e))
               | Inr f \<Rightarrow> Inr (TFloat f))
            else
              (case ParseInt run of
                 Inl e \<Rightarrow> Inl (ScanError l c (FailedScanInt e))
               | Inr i \<Rightarrow> Inr (TInt i))) \<and>
         (\<forall>v. decimal_value run = Some v \<longrightarrow>
            ParseInt run = (if - (2 ^ 63) \<le> v \<and> v < 2 ^ 63 then Inr v else Inl ErrRange))"
proof -
  from Token_number_run [OF assms, of pf]
  have "fst (Token pf d) = convert_number pf run l c" by auto
  then show ?thesis
    by (simp add: convert_number_def is_float_marker_def ParseInt_decimal)
qed

text \<open>
  \<open>9223372036854775808\<close> is one more than the largest \<open>int64\<close>; \<open>1e\<close> goes to
  the float conversion, which rejects it.
\<close>

theorem number_kind_by_marker_witness:
  "fst (Token (\<lambda>s. Inl ErrSyntax :: num_err + unit)
     (NewDecoder [(''9223372036854775808'', None)]))
     = Inl (ScanError 1 2 (FailedScanInt ErrRange)) \<and>
   fst (Token (\<lambda>s. Inl ErrSyntax :: num_err + unit)
     (NewDecoder [(''  1e'', None)]))
     = Inl (ScanError 1 4 (FailedScanFloat ErrSyntax))"
proof -
  let ?pf = "\<lambda>s. Inl ErrSyntax :: num_err + unit"
  let ?a = "''9223372036854775808''"
  have a: "\<forall>b\<in>set []. is_separator b" "?a \<noteq> []" "number_start (hd ?a)"
    "\<forall>b\<in>set ?a. is_number_byte b" "number_stop []" "length ?a \<le> 64"
    "events (NewDecoder [(?a, None)]) = map Byte ([] @ ?a) @ []"
    "(1, 2) = advance ([] @ [hd ?a]) (line (NewDecoder [(?a, None)]), column (NewDecoder [(?a, None)]))"
    by (simp_all add: number_simps events_NewDecoder)
  have da: "decimal_value ?a = Some 9223372036854775808"
    by (simp add: decimal_value_def digits_value_def number_simps)
  have b: "\<forall>b\<in>set ''  ''. is_separator b" "''1e'' \<noteq> []" "number_start (hd ''1e'')"
    "\<forall>b\<in>set ''1e''. is_number_byte b" "number_stop []" "length ''1e'' \<le> 64"
    "events (NewDecoder [(''  1e'', None)]) = map Byte (''  '' @ ''1e'') @ []"
    "(1, 4) = advance (''  '' @ [hd ''1e''])
        (line (NewDecoder [(''  1e'', None)]), column (NewDecoder [(''  1e'', None)]))"
    by (simp_all add: number_simps events_NewDecoder)
  from number_kind_by_marker [OF a, of ?pf] da
  have "fst (Token ?pf (NewDecoder [(?a, None)])) = Inl (ScanError 1 2 (FailedScanInt ErrRange))"
    by simp
  moreover from number_kind_by_marker [OF b, of ?pf]
  have "fst (Token ?pf (NewDecoder [(''  1e'', None)])) = Inl (ScanError 1 4 (FailedScanFloat ErrSyntax))"
    by simp
  ultimately show ?thesis by simp
qed

subsection \<open>Reading a string in slices\<close>

lemma drain_queued:
  "outputBuffer r \<noteq> [] \<Longrightarrow> drain (r\<lparr>outputBuffer := tl (outputBuffer r)\<rparr>) = (out, res) \<Longrightarrow>
   drain r = (hd (outputBuffer r) # out, res)"
  by (subst drain.simps) simp

lemma drain_fail:
  "outputBuffer r = [] \<Longrightarrow> next_byte (decoder r) = (Inl e, d1) \<Longrightarrow>
   drain r = ([], if e \<noteq> EOF then e else err d1 UnexpectedEOFString, True, r\<lparr>decoder := d1\<rparr>)"
  by (subst drain.simps) simp

lemma drain_step_err:
  "outputBuffer r = [] \<Longrightarrow> next_byte (decoder r) = (Inr input, d1) \<Longrightarrow>
   call_step (r\<lparr>decoder := d1\<rparr>) input = ((outp, ok, Some e), r2) \<Longrightarrow>
   drain r = ([], e, False, r2)"
  by (subst drain.simps) simp

lemma drain_emit:
  "outputBuffer r = [] \<Longrightarrow> next_byte (decoder r) = (Inr input, d1) \<Longrightarrow>
   call_step (r\<lparr>decoder := d1\<rparr>) input = ((outp, True, None), r2) \<Longrightarrow>
   drain r2 = (out, res) \<Longrightarrow> drain r = (outp # out, res)"
  by (subst drain.simps) simp

lemma drain_skip:
  "outputBuffer r = [] \<Longrightarrow> next_byte (decoder r) = (Inr input, d1) \<Longrightarrow>
   call_step (r\<lparr>decoder := d1\<rparr>) input = ((outp, False, None), r2) \<Longrightarrow>
   drain r = drain r2"
  by (subst drain.simps) simp

lemma drop_update_after: "n < m \<Longrightarrow> drop m (xs[n := x]) = drop m xs"
  by (simp add: drop_update_cancel)

lemma Read_loop_eof_None:
  "Read_loop r p n = ((m, None), r', p') \<Longrightarrow> eof r' = eof r"
proof (induction r p n rule: Read_loop_induct)
  case (full r p n)
  then show ?case by (simp add: Read_loop_full)
next
  case (drain r p n)
  then show ?case by (simp add: Read_loop_drain)
next
  case (fail r p n e d1)
  then show ?case by (simp add: Read_loop_fail)
next
  case (step_err r p n input d1 outp ok e r2)
  then show ?case by (simp add: Read_loop_step_err [OF step_err.hyps])
next
  case (emit r p n input d1 outp r2)
  from emit.hyps(4) have "eof r2 = eof r"
    by (cases "step r")
       (auto simp: call_step_def defaultStep_def escape_def unicode_def surrogateEscape_def
         surrogateEscapeU_def Let_def split: if_splits)
  with emit show ?case by (simp add: Read_loop_emit [OF emit.hyps])
next
  case (skip r p n input d1 outp r2)
  from skip.hyps(4) have "eof r2 = eof r"
    by (cases "step r")
       (auto simp: call_step_def defaultStep_def escape_def unicode_def surrogateEscape_def
         surrogateEscapeU_def Let_def split: if_splits)
  with skip show ?case by (simp add: Read_loop_skip [OF skip.hyps])
qed


lemma drain_queued_eq:
  "outputBuffer r \<noteq> [] \<Longrightarrow>
   drain r = (case drain (r\<lparr>outputBuffer := tl (outputBuffer r)\<rparr>) of
                (out, res) \<Rightarrow> (hd (outputBuffer r) # out, res))"
  by (subst drain.simps) simp

lemma drain_emit_eq:
  "outputBuffer r = [] \<Longrightarrow> next_byte (decoder r) = (Inr input, d1) \<Longrightarrow>
   call_step (r\<lparr>decoder := d1\<rparr>) input = ((outp, True, None), r2) \<Longrightarrow>
   drain r = (case drain r2 of (out, res) \<Rightarrow> (outp # out, res))"
  by (subst drain.simps) simp

lemma fill_step:
  assumes "n < length p" and "length p - n \<le> Suc (length out1)"
    and "p' = take (n + 1) (p[n := x]) @ take (length p - (n + 1)) out1"
  shows "p' = take n p @ take (length p - n) (x # out1)"
    and "drop (length p - (n + 1)) out1 = drop (length p - n) (x # out1)"
proof -
  from assms(1) have k: "length p - n = Suc (length p - (n + 1))" by simp
  show "p' = take n p @ take (length p - n) (x # out1)"
    using assms(1,3) by (simp add: k take_Suc_update del: take_Suc_Cons)
       (simp add: take_Suc_Cons)
  show "drop (length p - (n + 1)) out1 = drop (length p - n) (x # out1)"
    by (simp add: k)
qed

lemma Read_loop_drain_fill:
  "drain r = (out, e, sf, rf) \<Longrightarrow> n \<le> length p \<Longrightarrow> length p - n \<le> length out \<Longrightarrow>
   \<exists>r'. Read_loop r p n = ((length p, None), r', take n p @ take (length p - n) out) \<and>
        drain r' = (drop (length p - n) out, e, sf, rf)"
proof (induction r p n arbitrary: out rule: Read_loop_induct)
  case (full r p n)
  then have "n = length p" by simp
  with full.prems(1) show ?case by (simp add: Read_loop_full)
next
  case (drain r p n)
  let ?x = "hd (outputBuffer r)"
  from drain.prems(1) drain_queued_eq [OF drain.hyps(2)]
  obtain out1 where d1: "drain (r\<lparr>outputBuffer := tl (outputBuffer r)\<rparr>) = (out1, e, sf, rf)"
    and out: "out = ?x # out1"
    by (auto split: prod.splits)
  from drain.hyps(1) drain.prems(3) out
  have "n + 1 \<le> length (p[n := ?x])" "length (p[n := ?x]) - (n + 1) \<le> length out1" by simp_all
  from drain.IH [OF d1 this] obtain r' where
    r': "Read_loop (r\<lparr>outputBuffer := tl (outputBuffer r)\<rparr>) (p[n := ?x]) (n + 1) =
          ((length (p[n := ?x]), None), r',
           take (n + 1) (p[n := ?x]) @ take (length (p[n := ?x]) - (n + 1)) out1)"
    and dr: "drain r' = (drop (length (p[n := ?x]) - (n + 1)) out1, e, sf, rf)" by blast
  from drain.prems(3) out have le: "length p - n \<le> Suc (length out1)" by simp
  from fill_step [OF drain.hyps(1) le refl, of ?x] r' dr out
  show ?case by (simp add: Read_loop_drain [OF drain.hyps])
next
  case (fail r p n e0 d1)
  from drain_fail [OF fail.hyps(2,3)] fail.prems fail.hyps(1) show ?case by simp
next
  case (step_err r p n input d1 outp ok e0 r2)
  from drain_step_err [OF step_err.hyps(2,3,4)] step_err.prems step_err.hyps(1) show ?case
    by simp
next
  case (emit r p n input d1 outp r2)
  from emit.prems(1) drain_emit_eq [OF emit.hyps(2,3,4)]
  obtain out1 where d1: "drain r2 = (out1, e, sf, rf)" and out: "out = outp # out1"
    by (auto split: prod.splits)
  from emit.hyps(1) emit.prems(3) out
  have "n + 1 \<le> length (p[n := outp])" "length (p[n := outp]) - (n + 1) \<le> length out1"
    by simp_all
  from emit.IH [OF d1 this] obtain r' where
    r': "Read_loop r2 (p[n := outp]) (n + 1) =
          ((length (p[n := outp]), None), r',
           take (n + 1) (p[n := outp]) @ take (length (p[n := outp]) - (n + 1)) out1)"
    and dr: "drain r' = (drop (length (p[n := outp]) - (n + 1)) out1, e, sf, rf)" by blast
  from emit.prems(3) out have le: "length p - n \<le> Suc (length out1)" by simp
  from fill_step [OF emit.hyps(1) le refl, of outp] r' dr out
  show ?case by (simp add: Read_loop_emit [OF emit.hyps])
next
  case (skip r p n input d1 outp r2)
  from skip.prems(1) drain_skip [OF skip.hyps(2,3,4)]
  have "drain r2 = (out, e, sf, rf)" by simp
  from skip.IH [OF this skip.prems(2,3)] show ?case
    by (simp add: Read_loop_skip [OF skip.hyps])
qed

lemma stop_step:
  assumes "n < length p"
  shows "take (n + 1) (p[n := x]) @ out1 @ drop (n + 1 + length out1) (p[n := x]) =
         take n p @ (x # out1) @ drop (n + length (x # out1)) p"
  using assms by (simp add: take_Suc_update drop_update_after)

lemma Read_loop_drain_stop:
  "drain r = (out, e, sf, rf) \<Longrightarrow> n \<le> length p \<Longrightarrow> length out < length p - n \<Longrightarrow>
   Read_loop r p n =
     ((if sf then 0 else n + length out, Some e), rf, take n p @ out @ drop (n + length out) p)"
proof (induction r p n arbitrary: out rule: Read_loop_induct)
  case (full r p n)
  then show ?case by simp
next
  case (drain r p n)
  let ?x = "hd (outputBuffer r)"
  from drain.prems(1) drain_queued_eq [OF drain.hyps(2)]
  obtain out1 where d1: "drain (r\<lparr>outputBuffer := tl (outputBuffer r)\<rparr>) = (out1, e, sf, rf)"
    and out: "out = ?x # out1"
    by (auto split: prod.splits)
  from drain.hyps(1) drain.prems(3) out
  have "n + 1 \<le> length (p[n := ?x])" "length out1 < length (p[n := ?x]) - (n + 1)" by simp_all
  from drain.IH [OF d1 this] stop_step [OF drain.hyps(1), of ?x out1] out
  show ?case by (simp add: Read_loop_drain [OF drain.hyps])
next
  case (fail r p n e0 d1)
  from drain_fail [OF fail.hyps(2,3)] fail.prems show ?case
    by (auto simp: Read_loop_fail [OF fail.hyps])
next
  case (step_err r p n input d1 outp ok e0 r2)
  from drain_step_err [OF step_err.hyps(2,3,4)] step_err.prems show ?case
    by (auto simp: Read_loop_step_err [OF step_err.hyps])
next
  case (emit r p n input d1 outp r2)
  from emit.prems(1) drain_emit_eq [OF emit.hyps(2,3,4)]
  obtain out1 where d1: "drain r2 = (out1, e, sf, rf)" and out: "out = outp # out1"
    by (auto split: prod.splits)
  from emit.hyps(1) emit.prems(3) out
  have "n + 1 \<le> length (p[n := outp])" "length out1 < length (p[n := outp]) - (n + 1)"
    by simp_all
  from emit.IH [OF d1 this] stop_step [OF emit.hyps(1), of outp out1] out
  show ?case by (simp add: Read_loop_emit [OF emit.hyps])
next
  case (skip r p n input d1 outp r2)
  from skip.prems(1) drain_skip [OF skip.hyps(2,3,4)]
  have "drain r2 = (out, e, sf, rf)" by simp
  from skip.IH [OF this skip.prems(2,3)] show ?case
    by (simp add: Read_loop_skip [OF skip.hyps])
qed


lemma drain_induct [case_names queued fail step_err emit skip]:
  assumes queued: "\<And>r. outputBuffer r \<noteq> [] \<Longrightarrow> P (r\<lparr>outputBuffer := tl (outputBuffer r)\<rparr>) \<Longrightarrow> P r"
    and fail: "\<And>r e d1. outputBuffer r = [] \<Longrightarrow> next_byte (decoder r) = (Inl e, d1) \<Longrightarrow> P r"
    and step_err: "\<And>r input d1 outp ok e r2. outputBuffer r = [] \<Longrightarrow>
        next_byte (decoder r) = (Inr input, d1) \<Longrightarrow>
        call_step (r\<lparr>decoder := d1\<rparr>) input = ((outp, ok, Some e), r2) \<Longrightarrow> P r"
    and emit: "\<And>r input d1 outp r2. outputBuffer r = [] \<Longrightarrow>
        next_byte (decoder r) = (Inr input, d1) \<Longrightarrow>
        call_step (r\<lparr>decoder := d1\<rparr>) input = ((outp, True, None), r2) \<Longrightarrow> P r2 \<Longrightarrow> P r"
    and skip: "\<And>r input d1 outp r2. outputBuffer r = [] \<Longrightarrow>
        next_byte (decoder r) = (Inr input, d1) \<Longrightarrow>
        call_step (r\<lparr>decoder := d1\<rparr>) input = ((outp, False, None), r2) \<Longrightarrow> P r2 \<Longrightarrow> P r"
  shows "P r"
proof (induction r rule: drain.induct)
  case (1 r)
  show ?case
  proof (cases "outputBuffer r \<noteq> []")
    case True
    from queued [OF True "1.IH"(1) [OF True]] show ?thesis .
  next
    case False
    then have ob: "outputBuffer r = []" by simp
    obtain x d1 where nb: "next_byte (decoder r) = (x, d1)" by (cases "next_byte (decoder r)")
    show ?thesis
    proof (cases x)
      case (Inl e)
      with nb fail [OF ob] show ?thesis by simp
    next
      case (Inr input)
      with nb have nb': "next_byte (decoder r) = (Inr input, d1)" by simp
      obtain outp ok e r2 where cs: "call_step (r\<lparr>decoder := d1\<rparr>) input = ((outp, ok, e), r2)"
        by (metis prod_cases3 surj_pair)
      show ?thesis
      proof (cases e)
        case (Some a)
        with step_err [OF ob nb'] cs show ?thesis by simp
      next
        case None
        show ?thesis
        proof (cases ok)
          case True
          from "1.IH"(2) [OF False nb' [symmetric] refl cs [symmetric] refl refl None True]
          have "P r2" .
          with emit [OF ob nb'] cs None True show ?thesis by simp
        next
          case ok: False
          from "1.IH"(3) [OF False nb' [symmetric] refl cs [symmetric] refl refl None ok]
          have "P r2" .
          with skip [OF ob nb'] cs None ok show ?thesis by simp
        qed
      qed
    qed
  qed
qed

lemma drain_source_failure:
  "drain r = (out, e, True, rf) \<Longrightarrow> e \<noteq> EOF"
proof (induction r arbitrary: out rule: drain_induct)
  case (queued r)
  from queued.prems drain_queued_eq [OF queued.hyps] queued.IH show ?case
    by (auto split: prod.splits)
next
  case (fail r e0 d1)
  from fail.prems drain_fail [OF fail.hyps] show ?case by (auto simp: err_def split: if_splits)
next
  case (step_err r input d1 outp ok e0 r2)
  from step_err.prems drain_step_err [OF step_err.hyps] show ?case by simp
next
  case (emit r input d1 outp r2)
  from emit.prems drain_emit_eq [OF emit.hyps] emit.IH show ?case
    by (auto split: prod.splits)
next
  case (skip r input d1 outp r2)
  from skip.prems drain_skip [OF skip.hyps] skip.IH show ?case by simp
qed

lemma drain_queue_all:
  "drain r = (case drain (r\<lparr>outputBuffer := []\<rparr>) of (out, res) \<Rightarrow> (outputBuffer r @ out, res))"
proof (induction "outputBuffer r" arbitrary: r)
  case Nil
  then have "outputBuffer r = []" by simp
  then have ob: "outputBuffer r = []" by simp
  then have eq: "r\<lparr>outputBuffer := []\<rparr> = r" by (cases r) simp
  show ?case by (simp only: eq ob) (simp split: prod.split)
next
  case (Cons x xs)
  let ?r1 = "r\<lparr>outputBuffer := tl (outputBuffer r)\<rparr>"
  from Cons.hyps(2) have ob: "outputBuffer r \<noteq> []" and tl: "xs = outputBuffer ?r1"
    and hd: "outputBuffer r = x # xs" by (auto simp: Cons.hyps(2) [symmetric])
  from Cons.hyps(1) [OF tl] have "drain ?r1 =
    (case drain (?r1\<lparr>outputBuffer := []\<rparr>) of (out, res) \<Rightarrow> (outputBuffer ?r1 @ out, res))" .
  moreover have "?r1\<lparr>outputBuffer := []\<rparr> = r\<lparr>outputBuffer := []\<rparr>" by simp
  ultimately show ?case
    using drain_queued_eq [OF ob] hd by (simp split: prod.splits)
qed

lemma ReadAll_loop_drain:
  "\<not> eof r \<Longrightarrow> drain r = (out, e, sf, rf) \<Longrightarrow>
   ReadAll_loop r b = (if e = EOF then (Inr (b @ out), rf) else (Inl e, rf))"
proof (induction r b arbitrary: out rule: ReadAll_loop.induct)
  case (1 r b)
  let ?p = "replicate 512 (CHR 0x00)"
  from "1.prems"(1) have rd: "Read r ?p = Read_loop r ?p 0" by (simp add: Read_def)
  show ?case
  proof (cases "512 \<le> length out")
    case True
    then have "length ?p - 0 \<le> length out" by simp
    from Read_loop_drain_fill [OF "1.prems"(2) _ this] obtain r' where
      rl: "Read_loop r ?p 0 = ((512, None), r', take 512 out)"
      and dr: "drain r' = (drop 512 out, e, sf, rf)" by auto
    from Read_loop_eof_None [OF rl] "1.prems"(1) have ne: "\<not> eof r'" by simp
    from rd rl have rd': "Read r ?p = ((512, None), r', take 512 out)" by simp
    from "1.IH" [OF rd' [symmetric] refl refl refl refl ne dr]
    have "ReadAll_loop r' (b @ take 512 (take 512 out)) =
      (if e = EOF then (Inr ((b @ take 512 (take 512 out)) @ drop 512 out), rf) else (Inl e, rf))" .
    moreover have "ReadAll_loop r b = ReadAll_loop r' (b @ take 512 (take 512 out))"
      using rd' by (subst ReadAll_loop.simps) (simp add: Let_def)
    ultimately show ?thesis by simp
  next
    case False
    then have "length out < length ?p - 0" by simp
    from Read_loop_drain_stop [OF "1.prems"(2) _ this]
    have rl: "Read_loop r ?p 0 =
      ((if sf then 0 else length out, Some e), rf, out @ drop (length out) ?p)" by simp
    have sf: "e = EOF \<Longrightarrow> \<not> sf"
      using drain_source_failure [of r out e rf] "1.prems"(2) by auto
    from rd rl sf show ?thesis
      by (subst ReadAll_loop.simps) (auto simp: Let_def)
  qed
qed

subsection \<open>The string decoder against the state machine of the specification\<close>

lemma reader_at_decoder [simp]: "reader_at (r\<lparr>decoder := d\<rparr>) st pend = reader_at r st pend"
  by (cases st) (simp_all add: reader_at_def)

lemma reader_at_new: "reader_at (newStringReader d) S_Default None"
  by (simp add: reader_at_def newStringReader_def)

lemma not_hex_iff2:
  "((input < CHR ''0'' \<or> CHR ''9'' < input) \<and> (input < CHR ''a'' \<or> CHR ''f'' < input) \<and>
    (input < CHR ''A'' \<or> CHR ''F'' < input)) = (hex_val input = None)"
  by (auto simp: hex_val_def)

lemma update_last_of_four:
  "length m = 4 \<Longrightarrow> take 3 m = ds \<Longrightarrow> m[3 := c] = ds @ [c]"
  by (simp add: upd_conv_take_nth_drop)

lemma step_Default:
  assumes "reader_at r S_Default pend"
  shows "step_matches r c (transition S_Default pend c)"
  using assms
  by (auto simp: step_matches_def reader_at_def call_step_def defaultStep_def)

lemma step_Escape:
  assumes "reader_at r S_Escape pend"
  shows "step_matches r c (transition S_Escape pend c)"
proof (cases "c = CHR ''u''")
  case True
  with assms show ?thesis
    by (auto simp: step_matches_def reader_at_def call_step_def escape_def)
next
  case False
  show ?thesis
  proof (cases "escape_table c")
    case None
    with False show ?thesis by (simp add: step_matches_def)
  next
    case (Some b)
    then have "escape r c = ((b, True, None), r\<lparr>step := DefaultStep\<rparr>)"
      using False by (auto simp: escape_table_def escape_def Let_def split: if_splits)
    with assms False Some show ?thesis
      by (auto simp: step_matches_def reader_at_def call_step_def)
  qed
qed

lemma step_Surrogate:
  assumes "reader_at r (S_Surrogate b) pend"
  shows "step_matches r c (transition (S_Surrogate b) pend c)"
  using assms
  by (cases b)
     (auto simp: step_matches_def reader_at_def call_step_def surrogateEscape_def
        surrogateEscapeU_def)

lemma memory_after_encode:
  "length m = 4 \<Longrightarrow> length (EncodeRune cp @ drop (length (EncodeRune cp)) m) = 4"
  using EncodeRune_length [of cp] by simp

lemma step_UnicodeHex:
  assumes "reader_at r (S_UnicodeHex ds) pend"
  shows "step_matches r c (transition (S_UnicodeHex ds) pend c)"
proof (cases "hex_val c")
  case None
  then show ?thesis by (simp add: step_matches_def)
next
  case (Some v)
  from assms have st: "step r = Unicode" and mo: "memoryOffset r = length ds"
    and ds: "length ds \<le> 3" and tk: "take (length ds) (memory r) = ds"
    and ob: "outputBuffer r = []" and lm: "length (memory r) = 4"
    and su: "surrogate r = (case pend of None \<Rightarrow> 0 | Some hi \<Rightarrow> hi)" and p0: "pend \<noteq> Some 0"
    by (simp_all add: reader_at_def)
  have cs: "call_step r c = unicode r c" using st by (simp add: call_step_def)
  show ?thesis
  proof (cases "length ds < 3")
    case True
    with mo lm have "unicode r c =
        ((CHR 0x00, False, None),
         r\<lparr>memory := (memory r)[length ds := c], memoryOffset := length ds + 1\<rparr>)"
      using Some by (simp add: unicode_def not_hex_iff2 Let_def)
    moreover have "take (Suc (length ds)) ((memory r)[length ds := c]) = ds @ [c]"
      using True lm tk by (simp add: take_Suc_update)
    ultimately show ?thesis
      using True Some cs ob lm su p0 st
      by (simp add: step_matches_def reader_at_def)
  next
    case False
    with ds have l3: "length ds = 3" by simp
    with lm tk have upd: "(memory r)[memoryOffset r := c] = ds @ [c]"
      using mo by (simp add: update_last_of_four)
    let ?cp = "getu4 (ds @ [c])"
    let ?r1 = "r\<lparr>memory := ds @ [c], memoryOffset := 4\<rparr>"
    have l4: "length (ds @ [c]) = 4" using l3 by simp
    show ?thesis
    proof (cases pend)
      case None
      with su have s0: "surrogate r = 0" by simp
      show ?thesis
      proof (cases "IsSurrogate ?cp")
        case True
        then have "?cp \<noteq> 0" by (auto simp: IsSurrogate_def)
        moreover have "unicode r c =
          ((CHR 0x00, False, None), ?r1\<lparr>surrogate := ?cp, step := SurrogateEscape\<rparr>)"
          using Some mo lm l3 upd s0 True by (simp add: unicode_def not_hex_iff2 Let_def)
        ultimately show ?thesis
          using None True Some cs ob l3
          by (simp add: step_matches_def reader_at_def Let_def)
      next
        case False
        have "unicode r c =
          ((CHR 0x00, False, None),
           ?r1\<lparr>memory := EncodeRune ?cp @ drop (length (EncodeRune ?cp)) (ds @ [c]),
               outputBuffer := EncodeRune ?cp, step := DefaultStep\<rparr>)"
          using Some mo lm l3 upd s0 False by (simp add: unicode_def not_hex_iff2 Let_def)
        then show ?thesis
          using None False Some cs l3 s0 memory_after_encode [OF l4, of ?cp]
          by (simp add: step_matches_def reader_at_def Let_def)
      qed
    next
      case (Some hi)
      with su p0 have s1: "surrogate r = hi" "hi \<noteq> 0" by simp_all
      show ?thesis
      proof (cases "IsSurrogate ?cp")
        case True
        let ?s = "EncodeRune (DecodeRune hi ?cp)"
        have "unicode r c =
          ((CHR 0x00, False, None),
           ?r1\<lparr>memory := ?s @ drop (length ?s) (ds @ [c]),
               outputBuffer := ?s, surrogate := 0, step := DefaultStep\<rparr>)"
          using \<open>hex_val c = Some v\<close> mo lm l3 upd s1 True
          by (simp add: unicode_def not_hex_iff2 Let_def)
        then show ?thesis
          using Some True \<open>hex_val c = Some v\<close> cs l3
            memory_after_encode [OF l4, of "DecodeRune hi ?cp"]
          by (simp add: step_matches_def reader_at_def Let_def)
      next
        case False
        with Some \<open>hex_val c = Some v\<close> l3 show ?thesis
          by (simp add: step_matches_def Let_def)
      qed
    qed
  qed
qed

lemma step_spec:
  assumes "reader_at r st pend"
  shows "step_matches r c (transition st pend c)"
proof (cases st)
  case S_Default
  with assms step_Default show ?thesis by simp
next
  case S_Escape
  with assms step_Escape show ?thesis by simp
next
  case (S_UnicodeHex ds)
  with assms step_UnicodeHex show ?thesis by simp
next
  case (S_Surrogate b)
  with assms step_Surrogate show ?thesis by simp
qed

lemma emit_Closed:
  "emit bs x = Closed s rest \<Longrightarrow> \<exists>s1. x = Closed s1 rest \<and> s = bs @ s1"
  by (cases x) auto

lemma emit_Open: "emit bs x = Open \<Longrightarrow> x = Open"
  by (cases x) auto

lemma drain_after_step:
  assumes ob: "outputBuffer r = []" and nb: "next_byte (decoder r) = (Inr c, d1)"
    and cs: "call_step (r\<lparr>decoder := d1\<rparr>) c = ((outp, ok, None), r2)"
    and okb: "ok \<longrightarrow> outputBuffer r2 = []"
    and dr: "drain (r2\<lparr>outputBuffer := []\<rparr>) = (out, res)"
  shows "drain r = ((if ok then [outp] else []) @ outputBuffer r2 @ out, res)"
proof -
  from drain_queue_all [of r2] dr have d2: "drain r2 = (outputBuffer r2 @ out, res)" by simp
  show ?thesis
  proof (cases ok)
    case True
    with cs have "call_step (r\<lparr>decoder := d1\<rparr>) c = ((outp, True, None), r2)" by simp
    from drain_emit_eq [OF ob nb this] d2 True okb show ?thesis by simp
  next
    case False
    with cs have "call_step (r\<lparr>decoder := d1\<rparr>) c = ((outp, False, None), r2)" by simp
    from drain_skip [OF ob nb this] d2 False show ?thesis by simp
  qed
qed

lemma drain_closed:
  "reader_at r st pend \<Longrightarrow> decode_body st pend bs = Closed s rest \<Longrightarrow>
   events (decoder r) = map Byte bs @ evs \<Longrightarrow>
   \<exists>rf. drain r = (s, EOF, False, rf) \<and> events (decoder rf) = map Byte rest @ evs \<and>
        line (decoder rf) = line (decoder r) \<and> column (decoder rf) = column (decoder r)"
proof (induction bs arbitrary: r st pend s)
  case Nil
  then show ?case by simp
next
  case (Cons c cs)
  from Cons.prems(1) have ob: "outputBuffer r = []" by (simp add: reader_at_def)
  from Cons.prems(3) have "events (decoder r) = Byte c # (map Byte cs @ evs)" by simp
  from next_byte_Byte [OF this] obtain d1 where nb: "next_byte (decoder r) = (Inr c, d1)"
    and d1: "events d1 = map Byte cs @ evs" "line d1 = line (decoder r)"
      "column d1 = column (decoder r)" by blast
  let ?r1 = "r\<lparr>decoder := d1\<rparr>"
  from Cons.prems(1) have "reader_at ?r1 st pend" by simp
  from step_spec [OF this, of c] have sm: "step_matches ?r1 c (transition st pend c)" .
  show ?case
  proof (cases "transition st pend c")
    case T_Close
    with Cons.prems(2) have s: "s = []" "rest = cs" by simp_all
    from sm T_Close have "call_step ?r1 c = ((CHR 0x00, False, Some EOF), ?r1\<lparr>eof := True\<rparr>)"
      by (simp add: step_matches_def)
    from drain_step_err [OF ob nb this] s d1 show ?thesis by simp
  next
    case T_Bad
    with Cons.prems(2) show ?thesis by simp
  next
    case (T_Next st' pend' bs0)
    with Cons.prems(2) have "emit bs0 (decode_body st' pend' cs) = Closed s rest" by simp
    from emit_Closed [OF this] obtain s1 where s1: "decode_body st' pend' cs = Closed s1 rest"
      and s: "s = bs0 @ s1" by blast
    obtain outp ok e r2 where cs: "call_step ?r1 c = ((outp, ok, e), r2)"
      by (metis prod_cases3 surj_pair)
    with sm T_Next have e: "e = None" and bs0: "bs0 = (if ok then [outp] else []) @ outputBuffer r2"
      and okb: "ok \<longrightarrow> outputBuffer r2 = []"
      and ra: "reader_at (r2\<lparr>outputBuffer := []\<rparr>) st' pend'"
      by (simp_all add: step_matches_def)
    from call_step_decoder [of ?r1 c] cs have dec: "decoder r2 = d1" by simp
    with d1 have "events (decoder (r2\<lparr>outputBuffer := []\<rparr>)) = map Byte cs @ evs" by simp
    from Cons.IH [OF ra s1 this] obtain rf where
      rf: "drain (r2\<lparr>outputBuffer := []\<rparr>) = (s1, EOF, False, rf)"
        "events (decoder rf) = map Byte rest @ evs"
        "line (decoder rf) = line (decoder (r2\<lparr>outputBuffer := []\<rparr>))"
        "column (decoder rf) = column (decoder (r2\<lparr>outputBuffer := []\<rparr>))" by blast
    from cs e have "call_step ?r1 c = ((outp, ok, None), r2)" by simp
    from drain_after_step [OF ob nb this okb rf(1)] bs0 s rf dec d1 show ?thesis by simp
  qed
qed

lemma drain_open:
  "reader_at r st pend \<Longrightarrow> decode_body st pend bs = Open \<Longrightarrow>
   events (decoder r) = map Byte bs @ evs \<Longrightarrow> at_end evs \<Longrightarrow>
   \<exists>out rf. drain r =
       (out, ScanError (line (decoder r)) (column (decoder r)) UnexpectedEOFString, True, rf) \<and>
     events (decoder rf) = tl evs"
proof (induction bs arbitrary: r st pend)
  case Nil
  from Nil.prems(1) have ob: "outputBuffer r = []" by (simp add: reader_at_def)
  from Nil.prems(3,4) have "at_end (events (decoder r))" by simp
  from next_byte_at_end [OF this] obtain d' where "next_byte (decoder r) = (Inl EOF, d')"
    "events d' = tl (events (decoder r))" "line d' = line (decoder r)"
    "column d' = column (decoder r)" by blast
  with drain_fail [OF ob this(1)] Nil.prems(3) show ?case by (simp add: err_def)
next
  case (Cons c cs)
  from Cons.prems(1) have ob: "outputBuffer r = []" by (simp add: reader_at_def)
  from Cons.prems(3) have "events (decoder r) = Byte c # (map Byte cs @ evs)" by simp
  from next_byte_Byte [OF this] obtain d1 where nb: "next_byte (decoder r) = (Inr c, d1)"
    and d1: "events d1 = map Byte cs @ evs" "line d1 = line (decoder r)"
      "column d1 = column (decoder r)" by blast
  let ?r1 = "r\<lparr>decoder := d1\<rparr>"
  from Cons.prems(1) have "reader_at ?r1 st pend" by simp
  from step_spec [OF this, of c] have sm: "step_matches ?r1 c (transition st pend c)" .
  show ?case
  proof (cases "transition st pend c")
    case T_Close
    with Cons.prems(2) show ?thesis by simp
  next
    case T_Bad
    with Cons.prems(2) show ?thesis by simp
  next
    case (T_Next st' pend' bs0)
    with Cons.prems(2) have "emit bs0 (decode_body st' pend' cs) = Open" by simp
    from emit_Open [OF this] have s1: "decode_body st' pend' cs = Open" .
    obtain outp ok e r2 where cs: "call_step ?r1 c = ((outp, ok, e), r2)"
      by (metis prod_cases3 surj_pair)
    with sm T_Next have e: "e = None"
      and okb: "ok \<longrightarrow> outputBuffer r2 = []"
      and ra: "reader_at (r2\<lparr>outputBuffer := []\<rparr>) st' pend'"
      by (simp_all add: step_matches_def)
    from call_step_decoder [of ?r1 c] cs have dec: "decoder r2 = d1" by simp
    with d1 have "events (decoder (r2\<lparr>outputBuffer := []\<rparr>)) = map Byte cs @ evs" by simp
    from Cons.IH [OF ra s1 this Cons.prems(4)] obtain out rf where
      rf: "drain (r2\<lparr>outputBuffer := []\<rparr>) =
        (out, ScanError (line (decoder (r2\<lparr>outputBuffer := []\<rparr>)))
               (column (decoder (r2\<lparr>outputBuffer := []\<rparr>))) UnexpectedEOFString, True, rf)"
        "events (decoder rf) = tl evs" by blast
    from cs e have "call_step ?r1 c = ((outp, ok, None), r2)" by simp
    from drain_after_step [OF ob nb this okb rf(1)] rf dec d1 show ?thesis by simp
  qed
qed

lemma newStringReader_fields:
  "decoder (newStringReader d) = d" "\<not> eof (newStringReader d)"
  by (simp_all add: newStringReader_def)

lemma readString_closed:
  assumes "decode_body S_Default None bs = Closed s rest" and "events d = map Byte bs @ evs"
  shows "\<exists>d'. readString d = (Inr (TString s), d') \<and> events d' = map Byte rest @ evs \<and>
     line d' = line d \<and> column d' = column d"
proof -
  from assms(2) have "events (decoder (newStringReader d)) = map Byte bs @ evs"
    by (simp add: newStringReader_fields)
  from drain_closed [OF reader_at_new assms(1) this] obtain rf where
    rf: "drain (newStringReader d) = (s, EOF, False, rf)" "events (decoder rf) = map Byte rest @ evs"
      "line (decoder rf) = line d" "column (decoder rf) = column d"
    by (auto simp: newStringReader_fields)
  from ReadAll_loop_drain [OF newStringReader_fields(2) rf(1), of "[]"] rf show ?thesis
    by (simp add: readString_def ReadAll_def)
qed

lemma readString_open:
  assumes "decode_body S_Default None bs = Open" and "events d = map Byte bs @ evs"
    and "at_end evs"
  shows "\<exists>d'. readString d =
      (Inl (UnableToReadString (ScanError (line d) (column d) UnexpectedEOFString)), d') \<and>
     events d' = tl evs"
proof -
  from assms(2) have "events (decoder (newStringReader d)) = map Byte bs @ evs"
    by (simp add: newStringReader_fields)
  from drain_open [OF reader_at_new assms(1) this assms(3)] obtain out rf where
    rf: "drain (newStringReader d) =
       (out, ScanError (line d) (column d) UnexpectedEOFString, True, rf)"
      "events (decoder rf) = tl evs"
    by (auto simp: newStringReader_fields)
  from ReadAll_loop_drain [OF newStringReader_fields(2) rf(1), of "[]"] rf show ?thesis
    by (simp add: readString_def ReadAll_def)
qed

subsection \<open>A sequence of tokens\<close>

lemma ended_at_end: "ended evs \<Longrightarrow> at_end evs"
  by (cases evs) (auto simp: ended_def at_end_def)

lemma ended_number_stop: "ended evs \<Longrightarrow> number_stop evs"
  by (cases evs) (auto simp: ended_def)

lemma ended_after_stop: "ended evs \<Longrightarrow> ended (after_stop evs)"
  by (cases evs) (auto simp: ended_def)

lemma ended_tl: "ended evs \<Longrightarrow> ended (tl evs)"
  by (cases evs) (auto simp: ended_def)

lemma Token_delim:
  assumes "\<forall>b\<in>set seps. is_separator b"
    and "c = CHR ''{'' \<or> c = CHR ''}'' \<or> c = CHR ''['' \<or> c = CHR '']''"
    and "events d = map Byte (seps @ [c]) @ evs"
  shows "\<exists>d'. Token pf d = (Inr (TDelim c), d') \<and> events d' = evs"
proof -
  from assms(2) have ns: "\<not> is_separator c" by (auto simp: is_separator_def)
  from assms(3) have "events d = map Byte seps @ Byte c # evs" by simp
  from skipWhitespace_run [OF assms(1) ns this] obtain d1 where
    "skipWhitespace d = (Inr c, d1)" "events d1 = evs" by blast
  with assms(2) show ?thesis by (simp add: Token_def readToken_def)
qed

lemma Token_literal:
  assumes "\<forall>b\<in>set seps. is_separator b"
    and "(c, cs, tok) = (CHR ''t'', ''rue'', TBool True) \<or>
         (c, cs, tok) = (CHR ''f'', ''alse'', TBool False) \<or>
         (c, cs, tok) = (CHR ''n'', ''ull'', TNull)"
    and "events d = map Byte (seps @ c # cs) @ evs"
  shows "\<exists>d'. Token pf d = (Inr tok, d') \<and> events d' = evs"
proof -
  from assms(2) have ns: "\<not> is_separator c" by (auto simp: is_separator_def)
  from assms(3) have "events d = map Byte seps @ Byte c # (map Byte cs @ evs)" by simp
  from skipWhitespace_run [OF assms(1) ns this] obtain d1 where
    sk: "skipWhitespace d = (Inr c, d1)" and d1: "events d1 = map Byte cs @ evs" by blast
  from expect_run [OF d1, of tok] obtain d' where
    "expect d1 cs tok = (Inr tok, d')" "events d' = evs" by blast
  with sk assms(2) show ?thesis by (auto simp: Token_def readToken_def)
qed

lemma Token_string:
  fixes pf :: "byte list \<Rightarrow> num_err + 'f"
  assumes "\<forall>b\<in>set seps. is_separator b"
    and "decode_body S_Default None body = Closed s rest"
    and "events d = map Byte (seps @ quote # body) @ evs"
  shows "\<exists>d'. Token pf d = (Inr (TString s), d') \<and> events d' = map Byte rest @ evs"
proof -
  have ns: "\<not> is_separator quote" by (simp add: is_separator_def)
  from assms(3) have "events d = map Byte seps @ Byte quote # (map Byte body @ evs)" by simp
  from skipWhitespace_run [OF assms(1) ns this] obtain d1 where
    sk: "skipWhitespace d = (Inr quote, d1)" and d1: "events d1 = map Byte body @ evs" by blast
  from readString_closed [OF assms(2) d1] obtain d' where
    "readString d1 = (Inr (TString s :: 'f Token), d')" "events d' = map Byte rest @ evs"
    by blast
  with sk show ?thesis by (simp add: Token_def readToken_def)
qed

lemma Token_number:
  assumes "\<forall>b\<in>set seps. is_separator b" and "number_text bs" and "number_stop evs"
    and "convert_number pf bs 0 0 = Inr tok"
    and "events d = map Byte (seps @ bs) @ evs"
  shows "\<exists>d'. Token pf d = (Inr tok, d') \<and> events d' = after_stop evs"
proof -
  obtain l c where lc: "(l, c) = advance (seps @ [hd bs]) (line d, column d)"
    by (metis surj_pair)
  from assms(2) have nt: "bs \<noteq> []" "number_start (hd bs)" "\<forall>b\<in>set bs. is_number_byte b"
    "length bs \<le> 64" by (simp_all add: number_text_def)
  from assms(4) have "convert_number pf bs l c = Inr tok"
    by (auto simp: convert_number_def split: if_splits sum.splits)
  with Token_number_run [OF assms(1) nt(1,2,3) assms(3) nt(4) assms(5) lc, of pf]
  show ?thesis by auto
qed

lemma Token_spelling:
  assumes seps: "\<forall>b\<in>set seps. is_separator b" and sp: "spelling pf tok bs"
    and ev: "events d = map Byte (seps @ bs) @ evs"
    and stop: "is_number tok \<longrightarrow> number_stop evs"
  shows "\<exists>d'. Token pf d = (Inr tok, d') \<and>
     events d' = (if is_number tok then after_stop evs else evs)"
proof (cases tok)
  case (TDelim c)
  with sp ev Token_delim [OF seps, of c d evs pf] show ?thesis by simp
next
  case (TBool b)
  with sp ev Token_literal [OF seps, of "CHR ''t''" "''rue''" tok d evs pf]
    Token_literal [OF seps, of "CHR ''f''" "''alse''" tok d evs pf]
  show ?thesis by (cases b) simp_all
next
  case TNull
  with sp ev Token_literal [OF seps, of "CHR ''n''" "''ull''" tok d evs pf]
  show ?thesis by simp
next
  case (TInt i)
  with sp have "number_text bs" "convert_number pf bs 0 0 = Inr tok"
    by (simp_all add: convert_number_def)
  from Token_number [OF seps this(1) _ this(2) ev] stop TInt show ?thesis by simp
next
  case (TFloat f)
  with sp have "number_text bs" "convert_number pf bs 0 0 = Inr tok"
    by (simp_all add: convert_number_def)
  from Token_number [OF seps this(1) _ this(2) ev] stop TFloat show ?thesis by simp
next
  case (TString s)
  with sp obtain body where bs: "bs = quote # body"
    and "decode_body S_Default None body = Closed s []" by (cases bs) auto
  from Token_string [OF seps this(2), of d evs pf] ev bs TString show ?thesis by simp
qed

lemma Token_end:
  assumes "\<forall>b\<in>set fin. is_separator b" and "events d = map Byte fin @ evs" and "ended evs"
  shows "\<exists>d'. Token pf d = (Inl EOF, d') \<and> events d' = tl evs"
proof -
  from skipWhitespace_end [OF assms(1) ended_at_end [OF assms(3)] assms(2)]
  show ?thesis by (auto simp: Token_def)
qed

lemma after_number:
  assumes "\<not> starts_number bs" and "ended evs"
  shows "number_stop (map Byte bs @ evs) \<and>
     (\<exists>evs'. after_stop (map Byte bs @ evs) = map Byte bs @ evs' \<and> ended evs')"
proof (cases bs)
  case Nil
  with assms(2) ended_number_stop [OF assms(2)] ended_after_stop [OF assms(2)]
  show ?thesis by simp
next
  case (Cons b bs')
  with assms show ?thesis by (auto simp: starts_number_def)
qed

lemma Token_calls_layout:
  assumes "well_formed pf toks ps fin" and "events d = map Byte (layout ps fin) @ evs"
    and "ended evs"
  shows "\<exists>d'. Token_calls pf (Suc (length toks)) d = (map Inr toks @ [Inl EOF], d')"
  using assms
proof (induction toks arbitrary: ps d evs)
  case Nil
  then obtain "ps = []" "\<forall>b\<in>set fin. is_separator b" by (cases ps) auto
  with Token_end [OF this(2) _ Nil.prems(3), of d pf] Nil.prems(2) show ?case by auto
next
  case (Cons tok toks)
  then obtain seps bs ps' where ps: "ps = (seps, bs) # ps'" by (cases ps) auto
  with Cons.prems(1) have wf: "\<forall>b\<in>set seps. is_separator b" "spelling pf tok bs"
    "is_number tok \<longrightarrow> \<not> starts_number (layout ps' fin)" "well_formed pf toks ps' fin"
    by simp_all
  let ?rest = "map Byte (layout ps' fin) @ evs"
  from Cons.prems(2) ps have ev: "events d = map Byte (seps @ bs) @ ?rest" by simp
  from wf(3) after_number [OF _ Cons.prems(3)]
  have stop: "is_number tok \<longrightarrow> number_stop ?rest" by blast
  from Token_spelling [OF wf(1,2) ev stop] obtain d1 where
    tk: "Token pf d = (Inr tok, d1)"
    and d1: "events d1 = (if is_number tok then after_stop ?rest else ?rest)" by blast
  have "\<exists>evs'. events d1 = map Byte (layout ps' fin) @ evs' \<and> ended evs'"
  proof (cases "is_number tok")
    case True
    with wf(3) after_number [OF _ Cons.prems(3)] d1 show ?thesis by auto
  next
    case False
    with d1 Cons.prems(3) show ?thesis by auto
  qed
  then obtain evs' where "events d1 = map Byte (layout ps' fin) @ evs'" "ended evs'" by blast
  from Cons.IH [OF wf(4) this] obtain d' where
    "Token_calls pf (Suc (length toks)) d1 = (map Inr toks @ [Inl EOF], d')" by blast
  with tk show ?case by simp
qed

lemmas spelling_simps =
  number_text_def starts_number_def ended_def is_separator_def is_number_byte_def
  is_float_marker_def number_start_def ParseInt_def ParseUint_def is_digit_def digit_val_def
  escape_table_def

text \<open>
  Claim C7.  The input is a sequence of tokens, each written in one of its spellings
  and preceded by any run of the six separator bytes (space, tab, carriage return, line
  feed, comma, colon; the run may be empty, except that a number is not followed at once
  by a byte that would continue it), with any run of separators after the last token; the
  source delivers these bytes in slices of any sizes and then answers \<open>io.EOF\<close>.  Then
  the calls of \<open>Token\<close> return the tokens in their order, whatever the separators are,
  and the call after the last token returns \<open>io.EOF\<close> itself, the value that stands for
  the end of the input, not a scan error.
\<close>

theorem tokens_in_source_order:
  assumes "well_formed pf toks ps fin" and "events d = map Byte (layout ps fin) @ evs"
    and "ended evs"
  shows "fst (Token_calls pf (length toks + 1) d) = map Inr toks @ [Inl EOF]"
  using Token_calls_layout [OF assms] by auto

text \<open>
  An object with a key and an array, written with a colon, a comma, a space, a tab and two
  line feeds.
\<close>

theorem tokens_in_source_order_witness:
  "fst (Token_calls (\<lambda>s. Inl ErrSyntax :: num_err + unit) 8
     (NewDecoder [(''{'' @ quote # ''a'' @ quote # '': [-12,'' @ [CHR 0x0A, CHR 0x09] @ ''true]}'' @ [CHR 0x0A], None)]))
   = [Inr (TDelim (CHR ''{'')), Inr (TString ''a''), Inr (TDelim (CHR ''['')), Inr (TInt (- 12)),
      Inr (TBool True), Inr (TDelim (CHR '']'')), Inr (TDelim (CHR ''}'')), Inl EOF]"
proof -
  let ?pf = "\<lambda>s. Inl ErrSyntax :: num_err + unit"
  let ?toks = "[TDelim (CHR ''{''), TString ''a'', TDelim (CHR ''[''), TInt (- 12),
      TBool True, TDelim (CHR '']''), TDelim (CHR ''}'')] :: unit Token list"
  let ?ps = "[([], ''{''), ([], quote # ''a'' @ [quote]), ('': '', ''[''), ([], ''-12''),
      ([CHR '','', CHR 0x0A, CHR 0x09], ''true''), ([], '']''), ([], ''}'')]"
  let ?d = "NewDecoder [(''{'' @ quote # ''a'' @ quote # '': [-12,'' @ [CHR 0x0A, CHR 0x09] @ ''true]}'' @ [CHR 0x0A], None)]"
  have wf: "well_formed ?pf ?toks ?ps [CHR 0x0A]"
    by (simp add: spelling_simps)
  have ev: "events ?d = map Byte (layout ?ps [CHR 0x0A]) @ []"
    by (simp add: events_NewDecoder bufferSize_def)
  have en: "ended []" by (simp add: ended_def)
  have len: "length ?toks + 1 = 8" by simp
  from tokens_in_source_order [OF wf ev en, unfolded len] show ?thesis by simp
qed

text \<open>
  Claim C4.  On the bytes \<open>[false] } 11 2.2 "bar"nulltrue\<close>, ten calls of \<open>Token\<close>
  return the delimiter \<open>[\<close>, the boolean false, the delimiters \<open>]\<close> and \<open>}\<close>, the integer
  11, the float that \<open>ParseFloat\<close> makes of \<open>2.2\<close>, the string \<open>bar\<close>, null, the boolean
  true and then \<open>io.EOF\<close>.
\<close>

theorem basic_scenario_tokens:
  assumes "pf ''2.2'' = Inr f"
    and "events d =
       map Byte (''[false] } 11 2.2 '' @ quote # ''bar'' @ quote # ''nulltrue'') @ evs"
    and "ended evs"
  shows "fst (Token_calls pf 10 d) =
     [Inr (TDelim (CHR ''['')), Inr (TBool False), Inr (TDelim (CHR '']'')),
      Inr (TDelim (CHR ''}'')), Inr (TInt 11), Inr (TFloat f), Inr (TString ''bar''),
      Inr TNull, Inr (TBool True), Inl EOF]"
proof -
  let ?toks = "[TDelim (CHR ''[''), TBool False, TDelim (CHR '']''), TDelim (CHR ''}''),
      TInt 11, TFloat f, TString ''bar'', TNull, TBool True]"
  let ?ps = "[([], ''[''), ([], ''false''), ([], '']''), ('' '', ''}''), ('' '', ''11''),
      ('' '', ''2.2''), ('' '', quote # ''bar'' @ [quote]), ([], ''null''), ([], ''true'')]"
  have "well_formed pf ?toks ?ps []"
    using assms(1) by (simp add: spelling_simps)
  moreover from assms(2) have "events d = map Byte (layout ?ps []) @ evs" by simp
  ultimately obtain d' where
    "Token_calls pf (Suc (length ?toks)) d = (map Inr ?toks @ [Inl EOF], d')"
    using Token_calls_layout [OF _ _ assms(3)] by blast
  moreover have "Suc (length ?toks) = 10" by simp
  ultimately have "Token_calls pf 10 d = (map Inr ?toks @ [Inl EOF], d')" by (simp only:)
  then show ?thesis by simp
qed

text \<open>
  The input in a \<open>bytes.Buffer\<close>, as in \<open>TestBasic\<close>; the float is given by its digits
  and its decimal exponent.
\<close>

theorem basic_scenario_tokens_witness:
  "fst (Token_calls (\<lambda>s. if s = ''2.2'' then Inr (22 :: int, - 1 :: int) else Inl ErrSyntax) 10
     (NewDecoder [(''[false] } 11 2.2 '' @ quote # ''bar'' @ quote # ''nulltrue'', None)])) =
     [Inr (TDelim (CHR ''['')), Inr (TBool False), Inr (TDelim (CHR '']'')),
      Inr (TDelim (CHR ''}'')), Inr (TInt 11), Inr (TFloat (22, - 1)), Inr (TString ''bar''),
      Inr TNull, Inr (TBool True), Inl EOF]"
proof -
  let ?pf = "\<lambda>s. if s = ''2.2'' then Inr (22 :: int, - 1 :: int) else Inl ErrSyntax"
  let ?d = "NewDecoder [(''[false] } 11 2.2 '' @ quote # ''bar'' @ quote # ''nulltrue'', None)]"
  have pf: "?pf ''2.2'' = Inr (22, - 1)" by simp
  have ev: "events ?d =
     map Byte (''[false] } 11 2.2 '' @ quote # ''bar'' @ quote # ''nulltrue'') @ []"
    by (simp add: events_NewDecoder bufferSize_def)
  have en: "ended []" by (simp add: ended_def)
  from basic_scenario_tokens [of ?pf, OF pf ev en] show ?thesis .
qed

subsection \<open>The end of the input inside a token\<close>

lemma Token_literal_end:
  assumes "\<forall>b\<in>set seps. is_separator b"
    and "c # pre @ x # xs = ''true'' \<or> c # pre @ x # xs = ''false'' \<or>
         c # pre @ x # xs = ''null''"
    and "events d = map Byte (seps @ c # pre) @ evs" and "at_end evs"
    and "(l, k) = advance (seps @ [c]) (line d, column d)"
  shows "fst (Token pf d) = Inl (ScanError l k UnexpectedEOFLiteral)"
proof -
  from assms(2) have ns: "\<not> is_separator c" by (auto simp: is_separator_def)
  from assms(3) have "events d = map Byte seps @ Byte c # (map Byte pre @ evs)" by simp
  from skipWhitespace_run [OF assms(1) ns this] obtain d1 where
    sk: "skipWhitespace d = (Inr c, d1)" and d1: "events d1 = map Byte pre @ evs"
    and lc: "(line d1, column d1) = advance (seps @ [c]) (line d, column d)" by blast
  from lc assms(5) have pos: "line d1 = l" "column d1 = k" by (metis fst_conv, metis snd_conv)
  from assms(2) have "\<exists>tok. readToken pf d1 c = expect d1 (pre @ x # xs) tok"
    by (auto simp: readToken_def)
  then obtain tok where rt: "readToken pf d1 c = expect d1 (pre @ x # xs) tok" by blast
  from expect_end [OF d1 assms(4), of x xs tok] pos sk rt show ?thesis
    by (auto simp: Token_def)
qed

lemma ReadAll_open:
  assumes "decode_body S_Default None bs = Open" and "events d = map Byte bs @ evs"
    and "at_end evs"
  shows "fst (ReadAll (newStringReader d)) =
     Inl (ScanError (line d) (column d) UnexpectedEOFString)"
proof -
  from assms(2) have "events (decoder (newStringReader d)) = map Byte bs @ evs"
    by (simp add: newStringReader_fields)
  from drain_open [OF reader_at_new assms(1) this assms(3)] obtain out rf where
    rf: "drain (newStringReader d) =
       (out, ScanError (line d) (column d) UnexpectedEOFString, True, rf)"
    by (auto simp: newStringReader_fields)
  from ReadAll_loop_drain [OF newStringReader_fields(2) rf, of "[]"] show ?thesis
    by (simp add: ReadAll_def)
qed

lemma string_open:
  fixes pf :: "byte list \<Rightarrow> num_err + 'f"
  assumes "\<forall>b\<in>set seps. is_separator b"
    and "decode_body S_Default None body = Open"
    and "events d = map Byte (seps @ quote # body) @ evs" and "at_end evs"
    and "(l, k) = advance (seps @ [quote]) (line d, column d)"
  shows "fst (Token pf d) = Inl (UnableToReadString (ScanError l k UnexpectedEOFString)) \<and>
     (\<exists>r. StringReader d = Inr r \<and>
        fst (ReadAll r) = Inl (ScanError l k UnexpectedEOFString))"
proof -
  have ns: "\<not> is_separator quote" by (simp add: is_separator_def)
  from assms(3) have "events d = map Byte seps @ Byte quote # (map Byte body @ evs)" by simp
  from skipWhitespace_run [OF assms(1) ns this] obtain d1 where
    sk: "skipWhitespace d = (Inr quote, d1)" and d1: "events d1 = map Byte body @ evs"
    and lc: "(line d1, column d1) = advance (seps @ [quote]) (line d, column d)" by blast
  from lc assms(5) have pos: "line d1 = l" "column d1 = k" by (metis fst_conv, metis snd_conv)
  from readString_open [OF assms(2) d1 assms(4)] obtain d' where
    "readString d1 =
       (Inl (UnableToReadString (ScanError (line d1) (column d1) UnexpectedEOFString)) ::
          error + 'f Token, d')"
    by blast
  with sk pos have "fst (Token pf d) =
      Inl (UnableToReadString (ScanError l k UnexpectedEOFString))"
    by (simp add: Token_def readToken_def)
  moreover from sk have "StringReader d = Inr (newStringReader d1)"
    by (simp add: StringReader_def)
  moreover note ReadAll_open [OF assms(2) d1 assms(4)] pos
  ultimately show ?thesis by simp
qed

lemma Read_at_end:
  assumes "\<not> eof r" and "outputBuffer r = []" and "p \<noteq> []" and "at_end (events (decoder r))"
  shows "fst (Read r p) =
     (0, Some (ScanError (line (decoder r)) (column (decoder r)) UnexpectedEOFString))"
proof -
  from next_byte_at_end [OF assms(4)] obtain d' where
    nb: "next_byte (decoder r) = (Inl EOF, d')" and "line d' = line (decoder r)"
      "column d' = column (decoder r)" by blast
  moreover from assms(3) have "0 < length p" by simp
  note Read_loop_fail [OF this assms(2) nb]
  ultimately show ?thesis using assms(1) by (simp add: Read_def err_def)
qed

text \<open>
  Claim C8.  The source ends (it has nothing more, or answers \<open>io.EOF\<close>) after the
  bytes given.  If these are separators only, \<open>Token\<close> returns \<open>io.EOF\<close>, the clean
  end of the input.  If they end inside \<open>true\<close>, \<open>false\<close> or \<open>null\<close>, after at least
  the first byte of the word and before its last, \<open>Token\<close> returns the scan error
  "unexpected EOF while reading literal".  If they end inside a string, after the opening
  quote and before the closing one (also inside an escape), \<open>Token\<close> returns the scan
  error "unexpected EOF while reading string", wrapped by \<open>readString\<close>, and a string
  reader drained by \<open>ReadAll\<close> returns that scan error; so does every \<open>Read\<close>, with the
  count 0, that finds the source at its end with nothing queued.  These errors are scan
  errors, with the line and the column that the separator skipper has reached; none of them
  is \<open>io.EOF\<close>.
\<close>

theorem premature_end_of_input:
  fixes pf :: "byte list \<Rightarrow> num_err + 'f"
  assumes "\<forall>b\<in>set seps. is_separator b" and "at_end evs"
  shows
   "(events d = map Byte seps @ evs \<longrightarrow> fst (Token pf d) = Inl EOF) \<and>
    ((c # pre @ x # xs = ''true'' \<or> c # pre @ x # xs = ''false'' \<or>
      c # pre @ x # xs = ''null'') \<and>
     events d = map Byte (seps @ c # pre) @ evs \<and>
     (l, k) = advance (seps @ [c]) (line d, column d) \<longrightarrow>
       fst (Token pf d) = Inl (ScanError l k UnexpectedEOFLiteral)) \<and>
    (decode_body S_Default None body = Open \<and>
     events d = map Byte (seps @ quote # body) @ evs \<and>
     (l, k) = advance (seps @ [quote]) (line d, column d) \<longrightarrow>
       fst (Token pf d) = Inl (UnableToReadString (ScanError l k UnexpectedEOFString)) \<and>
       (\<exists>r. StringReader d = Inr r \<and>
          fst (ReadAll r) = Inl (ScanError l k UnexpectedEOFString))) \<and>
    (\<not> eof r \<and> outputBuffer r = [] \<and> p \<noteq> [] \<and> events (decoder r) = evs \<longrightarrow>
       fst (Read r p) =
         (0, Some (ScanError (line (decoder r)) (column (decoder r)) UnexpectedEOFString)))"
proof -
  have "fst (Token pf d) = Inl EOF" if "events d = map Byte seps @ evs"
    using skipWhitespace_end [OF assms that] by (auto simp: Token_def)
  moreover have "fst (Token pf d) = Inl (ScanError l k UnexpectedEOFLiteral)"
    if "c # pre @ x # xs = ''true'' \<or> c # pre @ x # xs = ''false'' \<or>
        c # pre @ x # xs = ''null''"
      and "events d = map Byte (seps @ c # pre) @ evs"
      and "(l, k) = advance (seps @ [c]) (line d, column d)"
    using Token_literal_end [OF assms(1) that(1,2) assms(2) that(3)] .
  moreover have "fst (Token pf d) = Inl (UnableToReadString (ScanError l k UnexpectedEOFString)) \<and>
       (\<exists>r. StringReader d = Inr r \<and>
          fst (ReadAll r) = Inl (ScanError l k UnexpectedEOFString))"
    if "decode_body S_Default None body = Open"
      and "events d = map Byte (seps @ quote # body) @ evs"
      and "(l, k) = advance (seps @ [quote]) (line d, column d)"
    using string_open [OF assms(1) that(1,2) assms(2) that(3)] .
  moreover have "fst (Read r p) =
         (0, Some (ScanError (line (decoder r)) (column (decoder r)) UnexpectedEOFString))"
    if "\<not> eof r" "outputBuffer r = []" "p \<noteq> []" "events (decoder r) = evs"
    using Read_at_end [OF that(1,2,3)] that(4) assms(2) by simp
  ultimately show ?thesis by blast
qed

text \<open>
  Two spaces; a space and \<open>tru\<close>; a quote, \<open>fo\<close> and a backslash; and a \<open>Read\<close>
  of a string reader on an empty source.
\<close>

theorem premature_end_of_input_witness:
  "fst (Token (\<lambda>s. Inl ErrSyntax :: num_err + unit) (NewDecoder [(''  '', None)])) = Inl EOF \<and>
   fst (Token (\<lambda>s. Inl ErrSyntax :: num_err + unit) (NewDecoder [('' tru'', None)]))
     = Inl (ScanError 1 3 UnexpectedEOFLiteral) \<and>
   fst (Token (\<lambda>s. Inl ErrSyntax :: num_err + unit)
          (NewDecoder [(quote # ''fo'' @ [backslash], None)]))
     = Inl (UnableToReadString (ScanError 1 2 UnexpectedEOFString)) \<and>
   fst (Read (newStringReader (NewDecoder [])) [CHR 0x00])
     = (0, Some (ScanError 1 1 UnexpectedEOFString))"
proof -
  let ?pf = "\<lambda>s. Inl ErrSyntax :: num_err + unit"
  have e: "at_end []" by (simp add: at_end_def)
  have r: "\<not> eof (newStringReader (NewDecoder []))"
    "outputBuffer (newStringReader (NewDecoder [])) = []" "[CHR 0x00] \<noteq> []"
    "events (decoder (newStringReader (NewDecoder []))) = []"
    "line (decoder (newStringReader (NewDecoder []))) = 1"
    "column (decoder (newStringReader (NewDecoder []))) = 1"
    by (simp_all add: newStringReader_def NewDecoder_def events_def)
  have s0: "\<forall>b\<in>set []. is_separator b" and s1: "\<forall>b\<in>set '' ''. is_separator b"
    and s2: "\<forall>b\<in>set ''  ''. is_separator b"
    by (simp_all add: is_separator_def)
  have a: "events (NewDecoder [(''  '', None)]) = map Byte ''  '' @ []"
    by (simp add: events_NewDecoder bufferSize_def)
  have b: "CHR ''t'' # ''ru'' @ CHR ''e'' # [] = ''true'' \<or>
      CHR ''t'' # ''ru'' @ CHR ''e'' # [] = ''false'' \<or>
      CHR ''t'' # ''ru'' @ CHR ''e'' # [] = ''null''"
    "events (NewDecoder [('' tru'', None)]) = map Byte ('' '' @ CHR ''t'' # ''ru'') @ []"
    "(1, 3) = advance ('' '' @ [CHR ''t''])
       (line (NewDecoder [('' tru'', None)]), column (NewDecoder [('' tru'', None)]))"
    by (simp_all add: events_NewDecoder bufferSize_def NewDecoder_position)
  have c: "decode_body S_Default None (''fo'' @ [backslash]) = Open"
    "events (NewDecoder [(quote # ''fo'' @ [backslash], None)]) = map Byte ([] @ quote # ''fo'' @ [backslash]) @ []"
    "(1, 2) = advance ([] @ [quote])
       (line (NewDecoder [(quote # ''fo'' @ [backslash], None)]),
        column (NewDecoder [(quote # ''fo'' @ [backslash], None)]))"
    by (simp_all add: events_NewDecoder bufferSize_def NewDecoder_position)
  from premature_end_of_input [where pf = ?pf, OF s2 e, THEN conjunct1] a
  have "fst (Token ?pf (NewDecoder [(''  '', None)])) = Inl EOF" by simp
  moreover
  from premature_end_of_input [where pf = ?pf, OF s1 e, THEN conjunct2, THEN conjunct1] b
  have "fst (Token ?pf (NewDecoder [('' tru'', None)]))
     = Inl (ScanError 1 3 UnexpectedEOFLiteral)" by blast
  moreover
  from premature_end_of_input [where pf = ?pf, OF s0 e, THEN conjunct2, THEN conjunct2,
      THEN conjunct1] c
  have "fst (Token ?pf (NewDecoder [(quote # ''fo'' @ [backslash], None)]))
     = Inl (UnableToReadString (ScanError 1 2 UnexpectedEOFString))" by blast
  moreover
  from premature_end_of_input [where pf = ?pf, OF s0 e, THEN conjunct2, THEN conjunct2,
      THEN conjunct2, of "newStringReader (NewDecoder [])" "[CHR 0x00]"] r
  have "fst (Read (newStringReader (NewDecoder [])) [CHR 0x00])
     = (0, Some (ScanError 1 1 UnexpectedEOFString))" by simp
  ultimately show ?thesis by simp
qed

subsection \<open>A probe for a string that finds another token\<close>

text \<open>
  What the cursor delivers and the line are all that the literal matcher, the number
  scanner and the classifier depend on; the column only shows in the scan errors.
\<close>

lemma same_result_refl [simp]: "same_result ra ra"
  by (simp add: same_result_def)

lemma same_result_Inr [simp]: "same_result (Inr x) rb = (rb = Inr x)" "same_result ra (Inr x) = (ra = Inr x)"
  by (cases rb; auto simp: same_result_def) (cases ra; auto simp: same_result_def)

lemma same_result_Inl [simp]:
  "same_result (Inl e) (Inl e') = (forget_column e = forget_column e')"
  by (simp add: same_result_def)

lemma forget_column_err [simp]: "forget_column (err d m) = ScanError (line d) 0 m"
  by (simp add: err_def)

lemma next_byte_same [consumes 1, case_names fail byte]:
  assumes "events d' = events d"
    and "\<And>e d1 d1'. next_byte d = (Inl e, d1) \<Longrightarrow> next_byte d' = (Inl e, d1') \<Longrightarrow>
      events d1' = events d1 \<Longrightarrow> line d1 = line d \<Longrightarrow> line d1' = line d' \<Longrightarrow> P"
    and "\<And>b d1 d1'. next_byte d = (Inr b, d1) \<Longrightarrow> next_byte d' = (Inr b, d1') \<Longrightarrow>
      events d1' = events d1 \<Longrightarrow> line d1 = line d \<Longrightarrow> line d1' = line d' \<Longrightarrow>
      \<not> preparedValid d1 \<Longrightarrow> \<not> preparedValid d1' \<Longrightarrow> P"
  shows P
proof (cases "events d")
  case Nil
  with assms(1) have "events d' = []" by simp
  from next_byte_Nil [OF Nil] next_byte_Nil [OF this] assms(1) show P
    by (intro assms(2) [of EOF d d']) simp_all
next
  case (Cons ev evs)
  show ?thesis
  proof (cases ev)
    case (Byte b)
    with Cons assms(1) have "events d = Byte b # evs" "events d' = Byte b # evs" by simp_all
    from next_byte_Byte [OF this(1)] next_byte_Byte [OF this(2)] show P
      by (auto intro: assms(3))
  next
    case (Fail e)
    with Cons assms(1) have "events d = Fail e # evs" "events d' = Fail e # evs" by simp_all
    from next_byte_Fail [OF this(1)] next_byte_Fail [OF this(2)] show P
      by (auto intro: assms(2))
  qed
qed

lemma expect_same:
  "events d' = events d \<Longrightarrow> line d' = line d \<Longrightarrow>
   same_result (fst (expect d cs tok)) (fst (expect d' cs tok)) \<and>
   events (snd (expect d' cs tok)) = events (snd (expect d cs tok)) \<and>
   line (snd (expect d' cs tok)) = line (snd (expect d cs tok))"
proof (induction cs arbitrary: d d')
  case Nil
  then show ?case by simp
next
  case (Cons c cs)
  from Cons.prems(1) show ?case
  proof (cases rule: next_byte_same)
    case (fail e d1 d1')
    with Cons.prems show ?thesis by simp
  next
    case (byte b d1 d1')
    with Cons.prems have "events d1' = events d1" "line d1' = line d1" by simp_all
    from Cons.IH [OF this] byte Cons.prems show ?thesis by simp
  qed
qed

lemma readNumber_loop_same:
  "events d' = events d \<Longrightarrow> line d' = line d \<Longrightarrow>
   same_result (fst (readNumber_loop d buf off fl)) (fst (readNumber_loop d' buf off fl)) \<and>
   events (snd (readNumber_loop d' buf off fl)) = events (snd (readNumber_loop d buf off fl)) \<and>
   line (snd (readNumber_loop d' buf off fl)) = line (snd (readNumber_loop d buf off fl))"
proof (induction "length (events d)" arbitrary: d d' buf off fl rule: less_induct)
  case less
  from less.prems(1) show ?case
  proof (cases rule: next_byte_same)
    case (fail e d1 d1')
    with less.prems show ?thesis
      by (simp add: readNumber_loop.simps [of d] readNumber_loop.simps [of d'])
  next
    case (byte b d1 d1')
    with less.prems have eq: "events d1' = events d1" "line d1' = line d1" by simp_all
    from next_byte_length [OF byte(1)] have "length (events d1) < length (events d)" .
    note IH = less.hyps [OF this eq]
    from byte eq have "events (undo d1' b) = events (undo d1 b)"
      "line (undo d1' b) = line (undo d1 b)"
      by (simp_all add: events_undo) (simp_all add: undo_def)
    with byte eq IH show ?thesis
      by (simp add: readNumber_loop.simps [of d] readNumber_loop.simps [of d'])
  qed
qed

lemma readNumber_same:
  assumes "events d' = events d" and "line d' = line d"
  shows "same_result (fst (readNumber pf d)) (fst (readNumber pf d')) \<and>
   events (snd (readNumber pf d')) = events (snd (readNumber pf d))"
proof -
  let ?a = "readNumber_loop d (replicate 64 (CHR 0x00)) 0 False"
  let ?b = "readNumber_loop d' (replicate 64 (CHR 0x00)) 0 False"
  from readNumber_loop_same [OF assms, of "replicate 64 (CHR 0x00)" 0 False]
  have s: "same_result (fst ?a) (fst ?b)" "events (snd ?b) = events (snd ?a)"
    "line (snd ?b) = line (snd ?a)" by simp_all
  obtain ra da where a: "?a = (ra, da)" by (cases ?a)
  obtain rb db where b: "?b = (rb, db)" by (cases ?b)
  show ?thesis
  proof (cases ra)
    case (Inl e)
    with s a b obtain e' where "rb = Inl e'" by (cases rb) simp_all
    with Inl s a b show ?thesis by (simp add: readNumber_def)
  next
    case (Inr x)
    with s a b have "rb = Inr x" by simp
    with Inr s a b show ?thesis
      by (auto simp: readNumber_def split: prod.splits sum.splits)
  qed
qed

lemma readToken_dispatch:
  "(\<forall>d. readToken pf d c = (Inr (TDelim c), d)) \<or> c = quote \<or>
   (\<exists>cs tok. \<forall>d. readToken pf d c = expect d cs tok) \<or>
   (\<forall>d. readToken pf d c = readNumber pf (undo d c)) \<or>
   (\<forall>d. readToken pf d c = (Inl (err d (BadInputByte c)), d))"
proof (cases "c = CHR ''t'' \<or> c = CHR ''f'' \<or> c = CHR ''n''")
  case True
  then have "(\<forall>d. readToken pf d c = expect d ''rue'' (TBool True)) \<or>
     (\<forall>d. readToken pf d c = expect d ''alse'' (TBool False)) \<or>
     (\<forall>d. readToken pf d c = expect d ''ull'' TNull)"
    by (auto simp: readToken_def simp del: expect.simps)
  then show ?thesis by blast
next
  case nl: False
  let ?D = "c = CHR ''{'' \<or> c = CHR ''}'' \<or> c = CHR ''['' \<or> c = CHR '']''"
  let ?N = "c = CHR ''-'' \<or> c = CHR ''.'' \<or> (CHR ''0'' \<le> c \<and> c \<le> CHR ''9'')"
  show ?thesis
  proof (cases ?D)
    case True
    then have "\<forall>d. readToken pf d c = (Inr (TDelim c), d)" by (simp add: readToken_def)
    then show ?thesis by blast
  next
    case nD: False
    show ?thesis
    proof (cases "c = quote")
      case True
      then show ?thesis by blast
    next
      case nq: False
      show ?thesis
      proof (cases ?N)
        case True
        with nl nD nq have "\<forall>d. readToken pf d c = readNumber pf (undo d c)"
          by (simp add: readToken_def)
        then show ?thesis by blast
      next
        case False
        with nl nD nq have "\<forall>d. readToken pf d c = (Inl (err d (BadInputByte c)), d)"
          by (auto simp: readToken_def)
        then show ?thesis by blast
      qed
    qed
  qed
qed

lemma readToken_same:
  assumes "c \<noteq> quote" and "events d' = events d" and "line d' = line d"
    and "\<not> preparedValid d" and "\<not> preparedValid d'"
  shows "same_result (fst (readToken pf d c)) (fst (readToken pf d' c)) \<and>
   events (snd (readToken pf d' c)) = events (snd (readToken pf d c))"
proof -
  from assms(2-5) have u: "events (undo d' c) = events (undo d c)" "line (undo d' c) = line (undo d c)"
    by (simp_all add: events_undo) (simp_all add: undo_def)
  from readToken_dispatch [of pf c] assms(1)
  consider "\<forall>d. readToken pf d c = (Inr (TDelim c), d)"
    | cs tok where "\<forall>d. readToken pf d c = expect d cs tok"
    | "\<forall>d. readToken pf d c = readNumber pf (undo d c)"
    | "\<forall>d. readToken pf d c = (Inl (err d (BadInputByte c)), d)" by blast
  then show ?thesis
  proof cases
    case 1
    with assms show ?thesis by simp
  next
    case 2
    with expect_same [OF assms(2,3), of cs tok] show ?thesis by simp
  next
    case 3
    with readNumber_same [OF u, of pf] show ?thesis by simp
  next
    case 4
    with assms show ?thesis by simp
  qed
qed

text \<open>
  Claim C9.  The next significant byte \<open>c\<close> (after any separators) is not a quote.
  Then \<open>StringReader\<close> returns \<open>ErrNotString\<close> and leaves \<open>c\<close> pushed back, in front
  of the bytes that follow it; and \<open>Token\<close> called next returns the token that \<open>Token\<close>
  returns without the probe, and leaves the same input to be read.  When \<open>Token\<close> fails
  without the probe, it fails with the same error after the probe, but for the column of a
  scan error.
\<close>

theorem probe_not_string:
  assumes "\<forall>b\<in>set seps. is_separator b" and "\<not> is_separator c" and "c \<noteq> quote"
    and "events d = map Byte seps @ Byte c # evs"
  shows "\<exists>d2. StringReader d = Inl (ErrNotString, d2) \<and>
     preparedValid d2 \<and> preparedByte d2 = c \<and> events d2 = Byte c # evs \<and>
     (\<forall>tok. fst (Token pf d) = Inr tok \<longrightarrow> fst (Token pf d2) = Inr tok) \<and>
     same_result (fst (Token pf d)) (fst (Token pf d2)) \<and>
     events (snd (Token pf d2)) = events (snd (Token pf d))"
proof -
  from skipWhitespace_run [OF assms(1,2,4)] obtain d1 where
    sk: "skipWhitespace d = (Inr c, d1)" and d1: "events d1 = evs" "\<not> preparedValid d1" by blast
  let ?d2 = "undo d1 c"
  from sk assms(3) have sr: "StringReader d = Inl (ErrNotString, ?d2)"
    by (simp add: StringReader_def)
  have pb: "preparedValid ?d2" "preparedByte ?d2 = c" "line ?d2 = line d1"
    by (simp_all add: undo_def)
  from d1 have ev: "events ?d2 = map Byte [] @ Byte c # evs" by (simp add: events_undo)
  have "\<forall>b\<in>set []. is_separator b" by simp
  from skipWhitespace_run [OF this assms(2) ev] obtain d3 where
    sk': "skipWhitespace ?d2 = (Inr c, d3)" and d3: "events d3 = evs" "\<not> preparedValid d3"
    and lc: "(line d3, column d3) = advance ([] @ [c]) (line ?d2, column ?d2)" by blast
  from assms(2) have "c \<noteq> CHR 0x0A" by (auto simp: is_separator_def)
  with lc pb have "line d3 = line d1" by simp
  with d1 d3 have "events d3 = events d1" "line d3 = line d1" by simp_all
  from readToken_same [OF assms(3) this d1(2) d3(2), of pf] sk sk'
  have "same_result (fst (Token pf d)) (fst (Token pf ?d2))"
    "events (snd (Token pf ?d2)) = events (snd (Token pf d))"
    by (simp_all add: Token_def)
  moreover from this(1)
  have "\<forall>tok. fst (Token pf d) = Inr tok \<longrightarrow> fst (Token pf ?d2) = Inr tok" by auto
  ultimately show ?thesis using sr pb ev by simp
qed

text \<open>The input \<open>false\<close> of \<open>TestNotString\<close>.\<close>

theorem probe_not_string_witness:
  "\<exists>d2. StringReader (NewDecoder [(''false'', None)]) = Inl (ErrNotString, d2) \<and>
     preparedValid d2 \<and> preparedByte d2 = CHR ''f'' \<and>
     fst (Token (\<lambda>s. Inl ErrSyntax :: num_err + unit) d2) = Inr (TBool False)"
proof -
  let ?pf = "\<lambda>s. Inl ErrSyntax :: num_err + unit"
  let ?d = "NewDecoder [(''false'', None)]"
  have a: "\<forall>b\<in>set []. is_separator b" "\<not> is_separator (CHR ''f'')" "CHR ''f'' \<noteq> quote"
    "events ?d = map Byte [] @ Byte (CHR ''f'') # map Byte ''alse''"
    by (simp_all add: is_separator_def events_NewDecoder bufferSize_def)
  have t: "fst (Token ?pf ?d) = Inr (TBool False)"
    by (simp add: run_simps token_simps)
  from probe_not_string [OF a, of ?pf] t show ?thesis by auto
qed

text \<open>
  The column after the probe is one more: the byte \<open>x\<close> begins no token, and the scan
  error that reports it has the column 2 without the probe and 3 after it.
\<close>

lemma probe_moves_error_column:
  "fst (Token (\<lambda>s. Inl ErrSyntax :: num_err + unit) (NewDecoder [(''x'', None)])) =
     Inl (ScanError 1 2 (BadInputByte (CHR ''x''))) \<and>
   (case StringReader (NewDecoder [(''x'', None)]) of
      Inl (e, d2) \<Rightarrow> e = ErrNotString \<and>
        fst (Token (\<lambda>s. Inl ErrSyntax :: num_err + unit) d2) =
          Inl (ScanError 1 3 (BadInputByte (CHR ''x'')))
    | Inr r \<Rightarrow> False)"
  by (simp add: run_simps token_simps)

end
